theory Spec2Isabelle
  imports Main
begin

section \<open>Containers of the host language\<close>

text \<open>
  A JavaScript \<open>Map\<close> iterates in the order in which its keys were first inserted, and
  \<open>set\<close> on a key that is already present replaces the value without moving the key.
  The resolver iterates over such a map, so the map is modelled as an association list
  that keeps exactly this order.  A \<open>Set\<close> is a list without repetitions, and
  a plain object used as a dictionary (\<open>Record<string, unknown>\<close>) is again an association list.
\<close>

type_synonym ('k, 'v) js_map = "('k \<times> 'v) list"

fun map_get :: "('k, 'v) js_map \<Rightarrow> 'k \<Rightarrow> 'v option" where
  "map_get [] k = None"
| "map_get ((k', v) # m) k = (if k' = k then Some v else map_get m k)"

definition map_has :: "('k, 'v) js_map \<Rightarrow> 'k \<Rightarrow> bool" where
  "map_has m k = (map_get m k \<noteq> None)"

fun map_set :: "('k, 'v) js_map \<Rightarrow> 'k \<Rightarrow> 'v \<Rightarrow> ('k, 'v) js_map" where
  "map_set [] k v = [(k, v)]"
| "map_set ((k', v') # m) k v = (if k' = k then (k, v) # m else (k', v') # map_set m k v)"

type_synonym 'a js_set = "'a list"

definition set_has :: "'a js_set \<Rightarrow> 'a \<Rightarrow> bool" where
  "set_has s x = (x \<in> set s)"

definition set_add :: "'a js_set \<Rightarrow> 'a \<Rightarrow> 'a js_set" where
  "set_add s x = (if x \<in> set s then s else s @ [x])"

text \<open>\<open>Array.prototype.indexOf\<close>: the first position of the element, or \<open>-1\<close>.\<close>

fun indexOf :: "'a list \<Rightarrow> 'a \<Rightarrow> int" where
  "indexOf [] x = - 1"
| "indexOf (y # ys) x =
     (if y = x then 0 else (let i = indexOf ys x in if i = - 1 then - 1 else i + 1))"

section \<open>Data model (types.ts)\<close>

datatype SeederStatus = Pending | Running | Completed | Failed | Skipped

text \<open>
  \<open>SeederResult\<close>: the three optional fields are absent (\<open>None\<close>) until the engine
  assigns them.
\<close>

record ('o, 'e) SeederResult =
  name :: string
  status :: SeederStatus
  durationMs :: "int option"
  "output" :: "'o option"
  error :: "'e option"

text \<open>
  \<open>Seeder\<close>: the work function \<open>run\<close> receives the shared context and the dictionary of
  dependency outputs (a dependency with no stored output is passed as \<open>undefined\<close>, here
  \<open>None\<close>); it either resolves to an output (\<open>Inr\<close>) or rejects with an error (\<open>Inl\<close>).
\<close>

record ('c, 'o, 'e) Seeder =
  name :: string
  description :: "string option"
  dependsOn :: "string list"
  run :: "'c \<Rightarrow> (string, 'o option) js_map \<Rightarrow> 'e + 'o"

section \<open>Dependency resolver (dependency-resolver.ts)\<close>

datatype ResolveError =
    CircularDependencyError "string list"
  | MissingDependencyError string string

subsection \<open>Lookup map and validation pass\<close>

definition build_seederMap ::
  "('c, 'o, 'e) Seeder list \<Rightarrow> (string, ('c, 'o, 'e) Seeder) js_map" where
  "build_seederMap seeders = fold (\<lambda>seeder m. map_set m (name seeder) seeder) seeders []"

fun validate_deps ::
  "(string, ('c, 'o, 'e) Seeder) js_map \<Rightarrow> string \<Rightarrow> string list \<Rightarrow> ResolveError option" where
  "validate_deps seederMap nm [] = None"
| "validate_deps seederMap nm (dep # deps) =
     (if \<not> map_has seederMap dep then Some (MissingDependencyError nm dep)
      else validate_deps seederMap nm deps)"

fun validate_all ::
  "(string, ('c, 'o, 'e) Seeder) js_map \<Rightarrow> ('c, 'o, 'e) Seeder list \<Rightarrow> ResolveError option" where
  "validate_all seederMap [] = None"
| "validate_all seederMap (seeder # rest) =
     (case validate_deps seederMap (name seeder) (dependsOn seeder) of
        Some e \<Rightarrow> Some e
      | None \<Rightarrow> validate_all seederMap rest)"

subsection \<open>In-degrees and reverse adjacency\<close>

definition init_inDegree :: "('c, 'o, 'e) Seeder list \<Rightarrow> (string, int) js_map" where
  "init_inDegree seeders = fold (\<lambda>seeder m. map_set m (name seeder) 0) seeders []"

definition init_dependents :: "('c, 'o, 'e) Seeder list \<Rightarrow> (string, string list) js_map" where
  "init_dependents seeders = fold (\<lambda>seeder m. map_set m (name seeder) []) seeders []"

text \<open>
  \<open>const deps = dependents.get(dep); if (deps) deps.push(seeder.name)\<close>: the array
  stored under \<open>dep\<close> grows at its end; a name with no entry is left alone.
\<close>

definition add_dependent ::
  "string \<Rightarrow> string \<Rightarrow> (string, string list) js_map \<Rightarrow> (string, string list) js_map" where
  "add_dependent nm dep dependents =
     (case map_get dependents dep of
        Some deps \<Rightarrow> map_set dependents dep (deps @ [nm])
      | None \<Rightarrow> dependents)"

definition build_step ::
  "('c, 'o, 'e) Seeder \<Rightarrow> (string, int) js_map \<times> (string, string list) js_map
     \<Rightarrow> (string, int) js_map \<times> (string, string list) js_map" where
  "build_step seeder g =
     (map_set (fst g) (name seeder) (int (length (dependsOn seeder))),
      fold (add_dependent (name seeder)) (dependsOn seeder) (snd g))"

definition build_graph ::
  "('c, 'o, 'e) Seeder list \<Rightarrow> (string, int) js_map \<times> (string, string list) js_map" where
  "build_graph seeders = fold build_step seeders (init_inDegree seeders, init_dependents seeders)"

definition initial_queue :: "(string, int) js_map \<Rightarrow> string list" where
  "initial_queue inDegree = map fst (filter (\<lambda>entry. snd entry = 0) inDegree)"

subsection \<open>Processing the queue\<close>

text \<open>
  One turn of the inner loop: \<open>newDegree = (inDegree.get(dependent) ?? 0) - 1\<close>, stored
  back, and the dependent is pushed when the new value is exactly zero.
\<close>

definition reduce_degree ::
  "string \<Rightarrow> (string, int) js_map \<times> string list \<Rightarrow> (string, int) js_map \<times> string list" where
  "reduce_degree dependent st =
     (let newDegree = (case map_get (fst st) dependent of Some d \<Rightarrow> d | None \<Rightarrow> 0) - 1
      in (map_set (fst st) dependent newDegree,
          if newDegree = 0 then snd st @ [dependent] else snd st))"

definition positive_entries :: "(string, int) js_map \<Rightarrow> nat" where
  "positive_entries inDegree = length (filter (\<lambda>entry. 0 < snd entry) inDegree)"

text \<open>
  The loop ends: a name is pushed only when its stored degree drops from one to zero, so the
  number of entries with a positive degree plus the length of the queue shrinks at every turn
  of the outer loop.
\<close>

lemma positive_entries_map_set_le:
  "v \<le> (case map_get m k of Some d \<Rightarrow> d | None \<Rightarrow> 0) \<Longrightarrow>
   positive_entries (map_set m k v) \<le> positive_entries m"
  by (induction m) (auto simp: positive_entries_def split: if_splits)

lemma positive_entries_map_set_zero:
  "map_get m k = Some 1 \<Longrightarrow> Suc (positive_entries (map_set m k 0)) = positive_entries m"
  by (induction m) (auto simp: positive_entries_def split: if_splits)

lemma reduce_degree_measure:
  "positive_entries (fst (reduce_degree d st)) + length (snd (reduce_degree d st))
     \<le> positive_entries (fst st) + length (snd st)"
proof (cases "map_get (fst st) d = Some 1")
  case True
  then show ?thesis
    using positive_entries_map_set_zero[OF True]
    by (simp add: reduce_degree_def Let_def)
next
  case False
  then have "(case map_get (fst st) d of Some d \<Rightarrow> d | None \<Rightarrow> 0) - 1 \<noteq> 0"
    by (auto split: option.splits)
  then show ?thesis
    using positive_entries_map_set_le[of "(case map_get (fst st) d of Some d \<Rightarrow> d | None \<Rightarrow> 0) - 1" "fst st" d]
    by (simp add: reduce_degree_def Let_def)
qed

lemma fold_reduce_degree_measure:
  "positive_entries (fst (fold reduce_degree ds st)) + length (snd (fold reduce_degree ds st))
     \<le> positive_entries (fst st) + length (snd st)"
proof (induction ds arbitrary: st)
  case Nil
  then show ?case by simp
next
  case (Cons d ds)
  show ?case
    using Cons.IH[of "reduce_degree d st"] reduce_degree_measure[of d st]
    by simp
qed

function process_queue ::
  "(string, string list) js_map \<Rightarrow> (string, int) js_map \<Rightarrow> string list \<Rightarrow> string list
     \<Rightarrow> string list" where
  "process_queue dependents inDegree [] result = result"
| "process_queue dependents inDegree (current # queue) result =
     (let deps = (case map_get dependents current of Some ds \<Rightarrow> ds | None \<Rightarrow> []);
          st = fold reduce_degree deps (inDegree, queue)
      in process_queue dependents (fst st) (snd st) (result @ [current]))"
  by pat_completeness auto
termination
proof (relation "measure (\<lambda>(dependents, inDegree, queue, result).
                    positive_entries inDegree + length queue)", goal_cases)
  case 1
  then show ?case by simp
next
  case (2 dependents inDegree current queue result deps st)
  then show ?case
    using fold_reduce_degree_measure[of deps "(inDegree, queue)"]
    by simp
qed

subsection \<open>Cycle search (findCycle)\<close>

text \<open>
  The closure \<open>dfs\<close> mutates \<open>visited\<close>, \<open>path\<close> and \<open>cycleStart\<close> of the enclosing
  call; here the three travel as a state record that each call returns updated, together with
  the boolean the closure returns.  \<open>dfs_each\<close> is the \<open>for\<close> loop over the dependencies,
  which stops at the first dependency that closes a cycle.
\<close>

record dfs_state =
  visited :: "string js_set"
  path :: "string list"
  cycleStart :: int

function dfs ::
    "(string, ('c, 'o, 'e) Seeder) js_map \<Rightarrow> string \<Rightarrow> dfs_state \<Rightarrow> bool \<times> dfs_state"
  and dfs_each ::
    "(string, ('c, 'o, 'e) Seeder) js_map \<Rightarrow> string list \<Rightarrow> dfs_state \<Rightarrow> bool \<times> dfs_state"
where
  "dfs seederMap nm st =
     (let existingIndex = indexOf (path st) nm in
      if existingIndex \<noteq> - 1 then (True, st\<lparr>cycleStart := existingIndex\<rparr>)
      else if set_has (visited st) nm then (False, st)
      else
        (let st1 = st\<lparr>visited := set_add (visited st) nm, path := path st @ [nm]\<rparr>;
             r = (case map_get seederMap nm of
                    Some seeder \<Rightarrow> dfs_each seederMap (dependsOn seeder) st1
                  | None \<Rightarrow> (False, st1))
         in if fst r then r else (False, (snd r)\<lparr>path := butlast (path (snd r))\<rparr>)))"
| "dfs_each seederMap [] st = (False, st)"
| "dfs_each seederMap (dep # deps) st =
     (let r = dfs seederMap dep st in if fst r then r else dfs_each seederMap deps (snd r))"
  by pat_completeness auto


definition unvisited :: "(string, 'v) js_map \<Rightarrow> dfs_state \<Rightarrow> nat" where
  "unvisited seederMap st = card (fst ` set seederMap - set (visited st))"

lemma dfs_visited_grows_partial:
  "dfs_dfs_each_dom (Inl (seederMap, nm, st)) \<Longrightarrow>
     set (visited st) \<subseteq> set (visited (snd (dfs seederMap nm st)))"
  "dfs_dfs_each_dom (Inr (seederMap, deps, st)) \<Longrightarrow>
     set (visited st) \<subseteq> set (visited (snd (dfs_each seederMap deps st)))"
proof (induction seederMap nm st and seederMap deps st rule: dfs_dfs_each.pinduct)
  case (1 seederMap nm st)
  show ?case
    using 1
    by (auto simp: dfs.psimps Let_def set_add_def set_has_def split: option.splits if_splits)
next
  case (2 seederMap st)
  then show ?case by (simp add: dfs_each.psimps)
next
  case (3 seederMap dep deps st)
  then show ?case
    by (auto simp: dfs_each.psimps Let_def split: if_splits)
qed

lemma map_get_Some_key: "map_get m k = Some v \<Longrightarrow> k \<in> fst ` set m"
  by (induction m) (auto split: if_splits)

lemma unvisited_mono:
  "set (visited st) \<subseteq> set (visited st') \<Longrightarrow> unvisited m st' \<le> unvisited m st"
  unfolding unvisited_def by (intro card_mono) auto

lemma unvisited_add:
  "nm \<in> fst ` set m \<Longrightarrow> nm \<notin> set (visited st) \<Longrightarrow>
   unvisited m (st\<lparr>visited := set_add (visited st) nm, path := p\<rparr>) < unvisited m st"
  unfolding unvisited_def set_add_def
  by (intro psubset_card_mono) auto

termination dfs
proof (relation "inv_image (less_than <*lex*> less_than)
         (\<lambda>x. case x of
                 Inl (m, nm, st) \<Rightarrow> (unvisited m st, 0)
               | Inr (m, deps, st) \<Rightarrow> (unvisited m st, Suc (length deps)))", goal_cases)
  case 1
  then show ?case by (intro wf_inv_image wf_lex_prod wf_less_than)
next
  case (2 seederMap nm st existingIndex st1 seeder)
  then show ?case
    using unvisited_add[of nm seederMap st "path st @ [nm]"] map_get_Some_key[of seederMap nm seeder]
    by (simp add: set_has_def)
next
  case (3 seederMap dep deps st)
  then show ?case by simp
next
  case (4 seederMap dep deps st r)
  then show ?case
    using unvisited_mono[OF dfs_visited_grows_partial(1)[of seederMap dep st], of seederMap]
    by auto
qed

text \<open>
  The equation of \<open>dfs\<close> has no pattern on its left; it is unfolded by hand where needed.
\<close>

declare dfs.simps [simp del]

text \<open>
  The outer loop of \<open>findCycle\<close>: \<open>path\<close> and \<open>cycleStart\<close> are reset for every
  start name, \<open>visited\<close> is not.  \<open>None\<close> means that no start name closed a cycle.
\<close>

fun find_from ::
  "(string, ('c, 'o, 'e) Seeder) js_map \<Rightarrow> ('c, 'o, 'e) Seeder list \<Rightarrow> dfs_state
     \<Rightarrow> string list option" where
  "find_from seederMap [] st = None"
| "find_from seederMap (seeder # rest) st =
     (let r = dfs seederMap (name seeder) (st\<lparr>path := [], cycleStart := - 1\<rparr>)
      in if fst r
         then Some (if 0 \<le> cycleStart (snd r)
                    then drop (nat (cycleStart (snd r))) (path (snd r))
                    else path (snd r))
         else find_from seederMap rest (snd r))"

definition findCycle ::
  "('c, 'o, 'e) Seeder list \<Rightarrow> (string, ('c, 'o, 'e) Seeder) js_map \<Rightarrow> string list" where
  "findCycle remaining seederMap =
     (case find_from seederMap remaining \<lparr>visited = [], path = [], cycleStart = - 1\<rparr> of
        Some cycle \<Rightarrow> cycle
      | None \<Rightarrow> map name remaining)"

subsection \<open>resolveDependencyOrder\<close>

text \<open>The array \<open>result\<close> as it stands when the queue has run empty.\<close>

definition kahn_order :: "('c, 'o, 'e) Seeder list \<Rightarrow> string list" where
  "kahn_order seeders =
     (let g = build_graph seeders
      in process_queue (snd g) (fst g) (initial_queue (fst g)) [])"

definition remaining_seeders ::
  "('c, 'o, 'e) Seeder list \<Rightarrow> string list \<Rightarrow> ('c, 'o, 'e) Seeder list" where
  "remaining_seeders seeders result = filter (\<lambda>s. name s \<notin> set result) seeders"

definition resolveDependencyOrder ::
  "('c, 'o, 'e) Seeder list \<Rightarrow> ResolveError + string list" where
  "resolveDependencyOrder seeders =
     (let seederMap = build_seederMap seeders
      in case validate_all seederMap seeders of
           Some e \<Rightarrow> Inl e
         | None \<Rightarrow>
             (let result = kahn_order seeders
              in if length result \<noteq> length seeders
                 then Inl (CircularDependencyError
                             (findCycle (remaining_seeders seeders result) seederMap))
                 else Inr result))"

text \<open>
  The message of the two error classes.  \<open>cycle.join(' -> ')\<close> is \<open>join\<close>; \<open>cycle[0]\<close> of
  an empty array is \<open>undefined\<close>, which the template literal prints as that word.
\<close>

fun join :: "string list \<Rightarrow> string \<Rightarrow> string" where
  "join [] sep = []"
| "join [x] sep = x"
| "join (x # y # ys) sep = x @ sep @ join (y # ys) sep"

fun message :: "ResolveError \<Rightarrow> string" where
  "message (CircularDependencyError cycle) =
     ''Circular dependency detected in seeders: '' @ join cycle '' -> '' @ '' -> ''
       @ (case cycle of [] \<Rightarrow> ''undefined'' | c # _ \<Rightarrow> c)"
| "message (MissingDependencyError seeder missingDep) =
     ''Seeder '' @ [CHR 0x22] @ seeder @ [CHR 0x22] @ '' depends on '' @ [CHR 0x22] @ missingDep
       @ [CHR 0x22] @ '' which does not exist''"

subsection \<open>The dependency graph of a registry\<close>

text \<open>
  An edge \<open>(d, u)\<close> for every unit named \<open>u\<close> that lists \<open>d\<close> in \<open>dependsOn\<close>.
\<close>

definition dependency_edges :: "('c, 'o, 'e) Seeder list \<Rightarrow> (string \<times> string) list" where
  "dependency_edges seeders =
     concat (map (\<lambda>s. map (\<lambda>d. (d, name s)) (dependsOn s)) seeders)"

section \<open>Execution engine (run-seeders.ts)\<close>

record RunSeedersOptions =
  printResults :: "bool option"
  verbose :: "bool option"
  continueOnFailure :: "bool option"

text \<open>
  \<open>InternalSeederConfig\<close>.  The hooks and \<open>setSeederName\<close> act on the state of the host
  process (type \<open>'h\<close>), which the engine itself never inspects.
\<close>

record ('c, 'h) InternalSeederConfig =
  "context" :: "unit \<Rightarrow> 'c"
  setSeederName :: "(string \<Rightarrow> 'h \<Rightarrow> 'h) option"
  onBeforeAll :: "('h \<Rightarrow> 'h) option"
  onAfterAll :: "('h \<Rightarrow> 'h) option"

text \<open>
  What a run does to the outside: the host state, the lines written with
  \<open>console.error\<close>, the calls of work functions in the order they were made (each with the
  name of the unit, the dependency outputs it was given and the host state at that moment),
  and the number of readings of \<open>Date.now()\<close> so far.  The k-th reading returns \<open>clock k\<close>.
  The formatter's output on \<open>console.log\<close> is not part of the model.
\<close>

record ('o, 'h) world =
  host :: 'h
  console_error :: "string list"
  invocations :: "(string \<times> (string, 'o option) js_map \<times> 'h) list"
  now_calls :: nat

record ('o, 'e, 'h) run_state =
  results :: "('o, 'e) SeederResult list"
  outputs :: "(string, 'o) js_map"
  failedSeeders :: "string js_set"
  world :: "('o, 'h) world"

record ('o, 'e) RunReport =
  results :: "('o, 'e) SeederResult list"
  success :: bool

definition call_hook :: "('h \<Rightarrow> 'h) option \<Rightarrow> ('o, 'h) world \<Rightarrow> ('o, 'h) world" where
  "call_hook hook w = (case hook of Some f \<Rightarrow> w\<lparr>host := f (host w)\<rparr> | None \<Rightarrow> w)"

definition pending_result :: "string \<Rightarrow> ('o, 'e) SeederResult" where
  "pending_result nm =
     \<lparr>SeederResult.name = nm, status = Pending, durationMs = None, output = None, error = None\<rparr>"

text \<open>\<open>deps[depName] = outputs[depName]\<close> for every declared dependency.\<close>

definition build_deps :: "string list \<Rightarrow> (string, 'o) js_map \<Rightarrow> (string, 'o option) js_map" where
  "build_deps dependsOn_list outs =
     fold (\<lambda>depName deps. map_set deps depName (map_get outs depName)) dependsOn_list []"

text \<open>
  The body of the \<open>for\<close> loop at index \<open>i\<close>, in three parts.  \<open>skip_unit\<close> is the branch
  taken when a dependency is in the failed-set; \<open>call_setSeederName\<close> is
  \<open>if (config.setSeederName) config.setSeederName(name)\<close>; \<open>execute_unit\<close> is everything from
  \<open>result.status = 'running'\<close> to the end of the \<open>try\<close>/\<open>catch\<close>; \<open>run_unit\<close> is the whole
  body.  The boolean is true when the body leaves the loop with \<open>break\<close>.  An empty name is
  falsy, so \<open>if (!name || !result) continue\<close> passes over a unit whose name is the empty
  string.
\<close>

definition call_setSeederName ::
  "('c, 'h) InternalSeederConfig \<Rightarrow> string \<Rightarrow> ('o, 'h) world \<Rightarrow> ('o, 'h) world" where
  "call_setSeederName config nm w =
     (case setSeederName config of Some f \<Rightarrow> w\<lparr>host := f nm (host w)\<rparr> | None \<Rightarrow> w)"

definition skip_unit :: "nat \<Rightarrow> string \<Rightarrow> ('o, 'e, 'h) run_state \<Rightarrow> ('o, 'e, 'h) run_state" where
  "skip_unit i nm st =
     st\<lparr>run_state.results :=
          (run_state.results st)[i := (run_state.results st ! i)\<lparr>status := Skipped\<rparr>],
        failedSeeders := set_add (failedSeeders st) nm\<rparr>"

definition execute_unit ::
  "(nat \<Rightarrow> int) \<Rightarrow> ('c, 'h) InternalSeederConfig \<Rightarrow> bool \<Rightarrow> 'c \<Rightarrow> nat \<Rightarrow> string
     \<Rightarrow> ('c, 'o, 'e) Seeder \<Rightarrow> ('o, 'e, 'h) run_state \<Rightarrow> bool \<times> ('o, 'e, 'h) run_state" where
  "execute_unit clock config continue_on_failure ctx i nm seeder st =
     (let running = (run_state.results st ! i)\<lparr>status := Running\<rparr>;
          w1 = call_setSeederName config nm (world st);
          deps = build_deps (dependsOn seeder) (outputs st);
          startTime = clock (now_calls w1);
          w2 = w1\<lparr>now_calls := Suc (now_calls w1),
                  invocations := invocations w1 @ [(nm, deps, host w1)]\<rparr>;
          endTime = clock (now_calls w2);
          w3 = w2\<lparr>now_calls := Suc (now_calls w2)\<rparr>
      in case run seeder ctx deps of
           Inr out \<Rightarrow>
             (False,
              st\<lparr>outputs := map_set (outputs st) nm out,
                 run_state.results := (run_state.results st)
                   [i := running\<lparr>status := Completed,
                                 durationMs := Some (endTime - startTime),
                                 output := Some out\<rparr>],
                 world := w3\<rparr>)
         | Inl err \<Rightarrow>
             (\<not> continue_on_failure,
              st\<lparr>run_state.results := (run_state.results st)
                   [i := running\<lparr>status := Failed,
                                 durationMs := Some (endTime - startTime),
                                 error := Some err\<rparr>],
                 failedSeeders := set_add (failedSeeders st) nm,
                 world := w3\<rparr>))"

definition run_unit ::
  "(nat \<Rightarrow> int) \<Rightarrow> (string, ('c, 'o, 'e) Seeder) js_map \<Rightarrow> ('c, 'h) InternalSeederConfig \<Rightarrow> bool
     \<Rightarrow> string list \<Rightarrow> 'c \<Rightarrow> nat \<Rightarrow> ('o, 'e, 'h) run_state \<Rightarrow> bool \<times> ('o, 'e, 'h) run_state" where
  "run_unit clock seederMap config continue_on_failure orderedNames ctx i st =
     (let nm = orderedNames ! i
      in if nm = [] then (False, st)
         else case map_get seederMap nm of
           None \<Rightarrow> (False, st)
         | Some seeder \<Rightarrow>
             if continue_on_failure \<and> list_ex (set_has (failedSeeders st)) (dependsOn seeder)
             then (False, skip_unit i nm st)
             else execute_unit clock config continue_on_failure ctx i nm seeder st)"

function run_loop ::
  "(nat \<Rightarrow> int) \<Rightarrow> (string, ('c, 'o, 'e) Seeder) js_map \<Rightarrow> ('c, 'h) InternalSeederConfig \<Rightarrow> bool
     \<Rightarrow> string list \<Rightarrow> 'c \<Rightarrow> nat \<Rightarrow> ('o, 'e, 'h) run_state \<Rightarrow> ('o, 'e, 'h) run_state" where
  "run_loop clock seederMap config continue_on_failure orderedNames ctx i st =
     (if i < length orderedNames
      then (let r = run_unit clock seederMap config continue_on_failure orderedNames ctx i st
            in if fst r then snd r
               else run_loop clock seederMap config continue_on_failure orderedNames ctx (Suc i) (snd r))
      else st)"
  by pat_completeness auto
termination
  by (relation "measure (\<lambda>(clock, seederMap, config, cof, orderedNames, ctx, i, st).
                   length orderedNames - i)") auto

declare run_loop.simps [simp del]

text \<open>
  The state with which the loop starts (every entry \<open>pending\<close>, no outputs, nobody failed),
  and the object the function returns: the ledger and \<open>failed === 0\<close>.
\<close>

definition initial_state :: "string list \<Rightarrow> ('o, 'h) world \<Rightarrow> ('o, 'e, 'h) run_state" where
  "initial_state orderedNames w =
     \<lparr>run_state.results = map pending_result orderedNames, outputs = [], failedSeeders = [],
      world = w\<rparr>"

definition final_report :: "('o, 'e, 'h) run_state \<Rightarrow> ('o, 'e) RunReport" where
  "final_report st =
     (let failed = length (filter (\<lambda>r. status r = Failed) (run_state.results st))
      in \<lparr>RunReport.results = run_state.results st, success = (failed = 0)\<rparr>)"

definition runSeedersCore ::
  "(nat \<Rightarrow> int) \<Rightarrow> ('c, 'o, 'e) Seeder list \<Rightarrow> ('c, 'h) InternalSeederConfig \<Rightarrow> RunSeedersOptions
     \<Rightarrow> 'h \<Rightarrow> ('o, 'e) RunReport \<times> ('o, 'h) world" where
  "runSeedersCore clock seeders config options h =
     (let continue_on_failure = (case continueOnFailure options of Some b \<Rightarrow> b | None \<Rightarrow> False);
          w0 = \<lparr>host = h, console_error = [], invocations = [], now_calls = 0\<rparr>;
          w1 = call_hook (onBeforeAll config) w0
      in case resolveDependencyOrder seeders of
           Inl err \<Rightarrow>
             (let w2 = w1\<lparr>console_error := console_error w1 @
                          [''Failed to resolve seeder dependencies:'', ''   '' @ message err]\<rparr>;
                  w3 = call_hook (onAfterAll config) w2
              in (\<lparr>RunReport.results = [], success = False\<rparr>, w3))
         | Inr orderedNames \<Rightarrow>
             (let seederMap = build_seederMap seeders;
                  ctx = context config ();
                  st = run_loop clock seederMap config continue_on_failure orderedNames ctx 0
                         (initial_state orderedNames w1);
                  w2 = call_hook (onAfterAll config) (world st)
              in (final_report st, w2)))"

text \<open>
  Names for three parts of \<open>runSeedersCore\<close> that the proofs speak about: the option
  \<open>continueOnFailure\<close> with its default, the world after \<open>onBeforeAll\<close>, and the state in
  which the loop over a resolved order ends.
\<close>

definition continue_flag :: "RunSeedersOptions \<Rightarrow> bool" where
  "continue_flag options = (case continueOnFailure options of Some b \<Rightarrow> b | None \<Rightarrow> False)"

definition started_world :: "('c, 'h) InternalSeederConfig \<Rightarrow> 'h \<Rightarrow> ('o, 'h) world" where
  "started_world config h =
     call_hook (InternalSeederConfig.onBeforeAll config)
       \<lparr>host = h, console_error = [], invocations = [], now_calls = 0\<rparr>"

definition loop_result ::
  "(nat \<Rightarrow> int) \<Rightarrow> ('c, 'o, 'e) Seeder list \<Rightarrow> ('c, 'h) InternalSeederConfig \<Rightarrow> RunSeedersOptions
     \<Rightarrow> 'h \<Rightarrow> string list \<Rightarrow> ('o, 'e, 'h) run_state" where
  "loop_result clock seeders config options h order =
     run_loop clock (build_seederMap seeders) config (continue_flag options) order
       (InternalSeederConfig.context config ()) 0 (initial_state order (started_world config h))"

text \<open>
  What the type \<open>SeederResult\<close> promises about the optional fields of an entry of a returned
  ledger.
\<close>

definition consistent_result :: "('o, 'e) SeederResult \<Rightarrow> bool" where
  "consistent_result r \<longleftrightarrow>
     (output r \<noteq> None \<longrightarrow> status r = Completed) \<and>
     (error r \<noteq> None \<longrightarrow> status r = Failed) \<and>
     ((durationMs r \<noteq> None) = (status r = Completed \<or> status r = Failed)) \<and>
     status r \<noteq> Running"

section \<open>Run-active flag and instance (seeding-state.ts, create-seeder-instance.ts)\<close>

text \<open>
  The host state as far as the library writes it: the module-level flag \<open>isSeeding\<close>, the
  variable \<open>currentSeederName\<close> of the step runner, and the rest of the application
  (type \<open>'a\<close>), which only the user's own hooks touch.
\<close>

record 'a host_state =
  isSeeding :: bool
  currentSeederName :: string
  app :: 'a

definition isSeedingActive :: "'a host_state \<Rightarrow> bool" where
  "isSeedingActive h = isSeeding h"

definition setSeedingActive :: "bool \<Rightarrow> 'a host_state \<Rightarrow> 'a host_state" where
  "setSeedingActive active h = h\<lparr>isSeeding := active\<rparr>"

record ('b, 'c, 'a) SeederInstanceConfig =
  "context" :: "'b \<Rightarrow> 'c"
  onBeforeAll :: "('a \<Rightarrow> 'a) option"
  onAfterAll :: "('a \<Rightarrow> 'a) option"

definition user_hook :: "('a \<Rightarrow> 'a) option \<Rightarrow> 'a host_state \<Rightarrow> 'a host_state" where
  "user_hook hook h = (case hook of Some f \<Rightarrow> h\<lparr>app := f (app h)\<rparr> | None \<Rightarrow> h)"

definition internalConfig ::
  "('b, 'c, 'a) SeederInstanceConfig \<Rightarrow> 'c \<Rightarrow> ('c, 'a host_state) InternalSeederConfig" where
  "internalConfig config ctx =
     \<lparr>InternalSeederConfig.context = (\<lambda>_. ctx),
      setSeederName = Some (\<lambda>nm h. h\<lparr>currentSeederName := nm\<rparr>),
      InternalSeederConfig.onBeforeAll =
        Some (\<lambda>h. user_hook (SeederInstanceConfig.onBeforeAll config) (setSeedingActive True h)),
      InternalSeederConfig.onAfterAll =
        Some (\<lambda>h. user_hook (SeederInstanceConfig.onAfterAll config) (setSeedingActive False h))\<rparr>"

definition runSeeders ::
  "(nat \<Rightarrow> int) \<Rightarrow> ('b, 'c, 'a) SeederInstanceConfig \<Rightarrow> 'b \<Rightarrow> ('c, 'o, 'e) Seeder list
     \<Rightarrow> RunSeedersOptions \<Rightarrow> 'a host_state \<Rightarrow> ('o, 'e) RunReport \<times> ('o, 'a host_state) world" where
  "runSeeders clock config baseContext seeders options h =
     (let h0 = h\<lparr>currentSeederName := []\<rparr>;
          ctx = SeederInstanceConfig.context config baseContext
      in runSeedersCore clock seeders (internalConfig config ctx) options h0)"

section \<open>Kahn's algorithm as the specification words it\<close>

text \<open>
  These definitions follow the text of the specification, not the code: in-degrees and
  dependents are functions of the registry, not maps that the algorithm fills.
\<close>

text \<open>"in-degree(unit) = |dependencyNames(unit)|"\<close>

definition spec_inDegree :: "('c, 'o, 'e) Seeder list \<Rightarrow> string \<Rightarrow> int" where
  "spec_inDegree units u =
     (case find (\<lambda>s. name s = u) units of
        Some s \<Rightarrow> int (length (dependsOn s))
      | None \<Rightarrow> 0)"

text \<open>"for each dependency edge \<open>u depends on d\<close>, register \<open>u\<close> as a dependent of \<open>d\<close>"\<close>

definition spec_dependents :: "('c, 'o, 'e) Seeder list \<Rightarrow> string \<Rightarrow> string list" where
  "spec_dependents units d = [name u. u \<leftarrow> units, x \<leftarrow> dependsOn u, x = d]"

text \<open>
  "Seed a ready-queue with every unit whose in-degree is zero, in registry iteration order."
\<close>

definition spec_ready :: "('c, 'o, 'e) Seeder list \<Rightarrow> string list" where
  "spec_ready units = [name u. u \<leftarrow> units, length (dependsOn u) = 0]"

text \<open>
  "for each of its dependents decrement that dependent's remaining in-degree; when a
  dependent's in-degree reaches zero, enqueue it (append)"
\<close>

definition spec_decrement ::
  "string \<Rightarrow> (string \<Rightarrow> int) \<times> string list \<Rightarrow> (string \<Rightarrow> int) \<times> string list" where
  "spec_decrement u st =
     ((fst st)(u := fst st u - 1), if fst st u - 1 = 0 then snd st @ [u] else snd st)"

definition spec_waiting :: "('c, 'o, 'e) Seeder list \<Rightarrow> (string \<Rightarrow> int) \<Rightarrow> nat" where
  "spec_waiting units deg = length (filter (\<lambda>u. 0 < deg u) (remdups (map name units)))"

lemma set_spec_dependents: "set (spec_dependents units d) \<subseteq> name ` set units"
  by (auto simp: spec_dependents_def)

lemma waiting_update_le:
  fixes deg :: "'a \<Rightarrow> int"
  shows "v \<le> deg u \<Longrightarrow>
     length (filter (\<lambda>x. 0 < (deg(u := v)) x) ns) \<le> length (filter (\<lambda>x. 0 < deg x) ns)"
  by (induction ns) auto

lemma waiting_update_zero:
  fixes deg :: "'a \<Rightarrow> int"
  shows "distinct ns \<Longrightarrow> u \<in> set ns \<Longrightarrow> deg u = 1 \<Longrightarrow>
     Suc (length (filter (\<lambda>x. 0 < (deg(u := 0)) x) ns)) = length (filter (\<lambda>x. 0 < deg x) ns)"
proof (induction ns)
  case Nil
  then show ?case by simp
next
  case (Cons n ns)
  show ?case
  proof (cases "n = u")
    case True
    then have "u \<notin> set ns" using Cons.prems(1) by simp
    then have "filter (\<lambda>x. 0 < (deg(u := 0)) x) ns = filter (\<lambda>x. 0 < deg x) ns"
      by (intro filter_cong) auto
    then show ?thesis using True Cons.prems(3) by simp
  next
    case False
    then show ?thesis using Cons by auto
  qed
qed

lemma spec_decrement_measure:
  assumes "u \<in> name ` set units"
  shows "spec_waiting units (fst (spec_decrement u st)) + length (snd (spec_decrement u st))
           \<le> spec_waiting units (fst st) + length (snd st)"
proof (cases "fst st u = 1")
  case True
  have "Suc (spec_waiting units ((fst st)(u := 0))) = spec_waiting units (fst st)"
    unfolding spec_waiting_def
    using assms True by (intro waiting_update_zero) auto
  then show ?thesis using True by (simp add: spec_decrement_def)
next
  case False
  have "spec_waiting units ((fst st)(u := fst st u - 1)) \<le> spec_waiting units (fst st)"
    unfolding spec_waiting_def by (rule waiting_update_le) simp
  then show ?thesis using False by (simp add: spec_decrement_def)
qed

lemma fold_spec_decrement_measure:
  "set ds \<subseteq> name ` set units \<Longrightarrow>
   spec_waiting units (fst (fold spec_decrement ds st)) + length (snd (fold spec_decrement ds st))
     \<le> spec_waiting units (fst st) + length (snd st)"
proof (induction ds arbitrary: st)
  case Nil
  then show ?case by simp
next
  case (Cons d ds)
  have "d \<in> name ` set units" and "set ds \<subseteq> name ` set units"
    using Cons.prems by simp_all
  then show ?case
    using Cons.IH[of "spec_decrement d st"] spec_decrement_measure[of d units st]
    by simp
qed

text \<open>
  "Repeatedly remove the head of the queue, append its name to the result, and for each of
  its dependents decrement ...  Continue until the queue is empty."
\<close>

function spec_loop ::
  "('c, 'o, 'e) Seeder list \<Rightarrow> (string \<Rightarrow> int) \<Rightarrow> string list \<Rightarrow> string list \<Rightarrow> string list" where
  "spec_loop units deg [] result = result"
| "spec_loop units deg (head # queue) result =
     (let st = fold spec_decrement (spec_dependents units head) (deg, queue)
      in spec_loop units (fst st) (snd st) (result @ [head]))"
  by pat_completeness auto
termination
proof (relation "measure (\<lambda>(units, deg, queue, result). spec_waiting units deg + length queue)",
       goal_cases)
  case 1
  then show ?case by simp
next
  case (2 units deg head queue result st)
  then show ?case
    using fold_spec_decrement_measure[OF set_spec_dependents, of units head "(deg, queue)"]
    by simp
qed

definition spec_kahn_order :: "('c, 'o, 'e) Seeder list \<Rightarrow> string list" where
  "spec_kahn_order units = spec_loop units (spec_inDegree units) (spec_ready units) []"

section \<open>Examples\<close>

text \<open>
  Two units that depend on each other, one of which also names a unit \<open>Z\<close> that does not exist.
\<close>

definition cyclic_missing_registry :: "(unit, unit, unit) Seeder list" where
  "cyclic_missing_registry =
     [\<lparr>name = ''A'', description = None, dependsOn = [''B''], run = (\<lambda>_ _. Inr ())\<rparr>,
      \<lparr>name = ''B'', description = None, dependsOn = [''A'', ''Z''], run = (\<lambda>_ _. Inr ())\<rparr>]"

text \<open>
  The diamond of the test suite: \<open>D\<close> needs \<open>B\<close> and \<open>C\<close>, which both need \<open>A\<close>.
\<close>

definition diamond_registry :: "(unit, unit, unit) Seeder list" where
  "diamond_registry =
     [\<lparr>name = ''D'', description = None, dependsOn = [''B'', ''C''], run = (\<lambda>_ _. Inr ())\<rparr>,
      \<lparr>name = ''B'', description = None, dependsOn = [''A''], run = (\<lambda>_ _. Inr ())\<rparr>,
      \<lparr>name = ''C'', description = None, dependsOn = [''A''], run = (\<lambda>_ _. Inr ())\<rparr>,
      \<lparr>name = ''A'', description = None, dependsOn = [], run = (\<lambda>_ _. Inr ())\<rparr>]"

text \<open>
  A unit \<open>X\<close> that depends on \<open>A\<close>, where \<open>A\<close> and \<open>B\<close> depend on each other; and a unit that
  lists itself.
\<close>

definition downstream_registry :: "(unit, unit, unit) Seeder list" where
  "downstream_registry =
     [\<lparr>name = ''X'', description = None, dependsOn = [''A''], run = (\<lambda>_ _. Inr ())\<rparr>,
      \<lparr>name = ''A'', description = None, dependsOn = [''B''], run = (\<lambda>_ _. Inr ())\<rparr>,
      \<lparr>name = ''B'', description = None, dependsOn = [''A''], run = (\<lambda>_ _. Inr ())\<rparr>]"

definition self_registry :: "(unit, unit, unit) Seeder list" where
  "self_registry =
     [\<lparr>name = ''A'', description = None, dependsOn = [''A''], run = (\<lambda>_ _. Inr ())\<rparr>]"

text \<open>
  Two units are ready at once, \<open>zeta\<close> before \<open>alpha\<close> in the registry; \<open>beta\<close> becomes ready
  before \<open>omega\<close> does.
\<close>

definition tie_registry :: "(unit, unit, unit) Seeder list" where
  "tie_registry =
     [\<lparr>name = ''zeta'', description = None, dependsOn = [], run = (\<lambda>_ _. Inr ())\<rparr>,
      \<lparr>name = ''omega'', description = None, dependsOn = [''zeta'', ''alpha''], run = (\<lambda>_ _. Inr ())\<rparr>,
      \<lparr>name = ''beta'', description = None, dependsOn = [''zeta''], run = (\<lambda>_ _. Inr ())\<rparr>,
      \<lparr>name = ''alpha'', description = None, dependsOn = [], run = (\<lambda>_ _. Inr ())\<rparr>]"

text \<open>
  A unit \<open>A\<close> that throws, a unit with the empty name that depends on \<open>A\<close>, and a unit \<open>C\<close>
  that depends on the unit with the empty name.
\<close>

definition unnamed_registry :: "(unit, nat, string) Seeder list" where
  "unnamed_registry =
     [\<lparr>name = ''A'', description = None, dependsOn = [], run = (\<lambda>_ _. Inl ''Failed!'')\<rparr>,
      \<lparr>name = [], description = None, dependsOn = [''A''], run = (\<lambda>_ _. Inr 1)\<rparr>,
      \<lparr>name = ''C'', description = None, dependsOn = [[]], run = (\<lambda>_ _. Inr 2)\<rparr>]"

text \<open>
  Three definitions, two of which bear the name \<open>A\<close>; the only edge is from \<open>B\<close> to \<open>A\<close>.
\<close>

definition dup_registry :: "(unit, unit, unit) Seeder list" where
  "dup_registry =
     [\<lparr>name = ''B'', description = None, dependsOn = [], run = (\<lambda>_ _. Inr ())\<rparr>,
      \<lparr>name = ''A'', description = None, dependsOn = [], run = (\<lambda>_ _. Inr ())\<rparr>,
      \<lparr>name = ''A'', description = None, dependsOn = [''B''], run = (\<lambda>_ _. Inr ())\<rparr>]"

text \<open>
  An engine configuration without hooks, the two option records used below, a clock that
  advances by ten at every reading, and a registry whose first unit throws.
\<close>

definition plain_config :: "(unit, unit) InternalSeederConfig" where
  "plain_config = \<lparr>InternalSeederConfig.context = (\<lambda>_. ()), setSeederName = None,
                    InternalSeederConfig.onBeforeAll = None, InternalSeederConfig.onAfterAll = None\<rparr>"

definition default_options :: RunSeedersOptions where
  "default_options = \<lparr>printResults = None, verbose = None, continueOnFailure = None\<rparr>"

definition continue_options :: RunSeedersOptions where
  "continue_options = \<lparr>printResults = None, verbose = None, continueOnFailure = Some True\<rparr>"

definition failing_registry :: "(unit, nat, string) Seeder list" where
  "failing_registry =
     [\<lparr>name = ''A'', description = None, dependsOn = [], run = (\<lambda>_ _. Inl ''Failed!'')\<rparr>,
      \<lparr>name = ''B'', description = None, dependsOn = [''A''], run = (\<lambda>_ _. Inr 1)\<rparr>,
      \<lparr>name = ''C'', description = None, dependsOn = [], run = (\<lambda>_ _. Inr 2)\<rparr>]"

definition tick :: "nat \<Rightarrow> int" where
  "tick k = 10 * int k"

text \<open>
  A configuration and a start state for \<open>runSeeders\<close>: no user hooks, flag down.
\<close>

definition plain_instance :: "(unit, unit, unit) SeederInstanceConfig" where
  "plain_instance = \<lparr>SeederInstanceConfig.context = (\<lambda>_. ()),
                      SeederInstanceConfig.onBeforeAll = None,
                      SeederInstanceConfig.onAfterAll = None\<rparr>"

definition idle_host :: "unit host_state" where
  "idle_host = \<lparr>isSeeding = False, currentSeederName = [], app = ()\<rparr>"

section \<open>Predicates used in the proofs\<close>

text \<open>\<open>inDegree.get(k) ?? 0\<close>, the degree the inner loop reads.\<close>

definition degree_of :: "(string, int) js_map \<Rightarrow> string \<Rightarrow> int" where
  "degree_of inDegree k = (case map_get inDegree k of Some d \<Rightarrow> d | None \<Rightarrow> 0)"

text \<open>Every array stored in the reverse adjacency map holds names of the set \<open>N\<close> only.\<close>

definition dependents_within :: "(string, string list) js_map \<Rightarrow> string set \<Rightarrow> bool" where
  "dependents_within dependents N \<longleftrightarrow>
     (\<forall>k ds. map_get dependents k = Some ds \<longrightarrow> set ds \<subseteq> N)"




text \<open>
  The names registered under \<open>d\<close> in the reverse adjacency map, in the order of registration:
  every unit once for each time it lists \<open>d\<close>.  \<open>dependents_list\<close> is
  \<open>dependents.get(current) ?? []\<close>.
\<close>

definition dependents_of :: "('c, 'o, 'e) Seeder list \<Rightarrow> string \<Rightarrow> string list" where
  "dependents_of seeders d =
     concat (map (\<lambda>s. map (\<lambda>_. name s) (filter (\<lambda>x. x = d) (dependsOn s))) seeders)"

definition dependents_list :: "(string, string list) js_map \<Rightarrow> string \<Rightarrow> string list" where
  "dependents_list dependents c = (case map_get dependents c of Some ds \<Rightarrow> ds | None \<Rightarrow> [])"

text \<open>
  What holds of in-degrees, queue and result at every turn of the outer loop when the names of
  the registry are unique: no name occurs twice in result and queue together; the stored degree
  of a unit is the number of entries of its dependency list that are not yet in the result; a
  unit is in result or queue exactly if all its dependencies are in the result; and all
  dependencies of a unit in the result stand before it.
\<close>

definition kahn_inv ::
  "('c, 'o, 'e) Seeder list \<Rightarrow> (string, int) js_map \<Rightarrow> string list \<Rightarrow> string list \<Rightarrow> bool" where
  "kahn_inv seeders deg q r \<longleftrightarrow>
     distinct (r @ q) \<and>
     set (r @ q) \<subseteq> name ` set seeders \<and>
     (\<forall>s \<in> set seeders.
        degree_of deg (name s) = int (length (filter (\<lambda>d. d \<notin> set r) (dependsOn s)))) \<and>
     (\<forall>s \<in> set seeders. name s \<in> set (r @ q) \<longleftrightarrow> set (dependsOn s) \<subseteq> set r) \<and>
     (\<forall>s \<in> set seeders. name s \<in> set r \<longrightarrow>
        set (dependsOn s) \<subseteq> set (takeWhile (\<lambda>x. x \<noteq> name s) r))"

text \<open>
  For the cycle search: the dependency list the search reads for a name; a path in which every
  name lists the next one as a dependency; a state in which \<open>cycleStart\<close> marks a position of
  such a path whose name is a dependency of the last name of the path; the relation "lists as a
  dependency"; the names from which some cycle can be reached; and the states in which every
  visited name that is no longer on the path reaches no cycle.
\<close>

definition deps_in :: "(string, ('c, 'o, 'e) Seeder) js_map \<Rightarrow> string \<Rightarrow> string list" where
  "deps_in seederMap u = (case map_get seederMap u of Some s \<Rightarrow> dependsOn s | None \<Rightarrow> [])"

definition dep_chain :: "(string, ('c, 'o, 'e) Seeder) js_map \<Rightarrow> string list \<Rightarrow> bool" where
  "dep_chain seederMap p \<longleftrightarrow> (\<forall>i. Suc i < length p \<longrightarrow> p ! Suc i \<in> set (deps_in seederMap (p ! i)))"

definition closes_cycle :: "(string, ('c, 'o, 'e) Seeder) js_map \<Rightarrow> dfs_state \<Rightarrow> bool" where
  "closes_cycle seederMap st \<longleftrightarrow>
     0 \<le> cycleStart st \<and> nat (cycleStart st) < length (path st) \<and>
     dep_chain seederMap (path st) \<and> distinct (path st) \<and>
     path st ! nat (cycleStart st) \<in> set (deps_in seederMap (last (path st)))"

definition dep_step :: "(string, ('c, 'o, 'e) Seeder) js_map \<Rightarrow> (string \<times> string) set" where
  "dep_step seederMap = {(u, d). d \<in> set (deps_in seederMap u)}"

definition reaches_cycle :: "(string, ('c, 'o, 'e) Seeder) js_map \<Rightarrow> string \<Rightarrow> bool" where
  "reaches_cycle seederMap v \<longleftrightarrow>
     (\<exists>c. (v, c) \<in> (dep_step seederMap)\<^sup>* \<and> (c, c) \<in> (dep_step seederMap)\<^sup>+)"

definition settled :: "(string, ('c, 'o, 'e) Seeder) js_map \<Rightarrow> dfs_state \<Rightarrow> bool" where
  "settled seederMap st \<longleftrightarrow>
     (\<forall>v \<in> set (visited st). v \<in> set (path st) \<or> \<not> reaches_cycle seederMap v)"

text \<open>
  For the runs that continue after a failure.  \<open>halted\<close> are the names whose entry is failed
  or skipped, \<open>called\<close> the names whose entry is completed or failed.  A call of a work
  function is recorded when the entry of its unit carries the outcome of the call.
  \<open>cont_inv\<close> is what holds before the loop body runs at index \<open>i\<close>: the entries from \<open>i\<close>
  on are as created, the failed-set is \<open>halted\<close>, the called units are \<open>called\<close>, an earlier
  entry is skipped exactly when a dependency of its unit is halted, and every call is
  recorded.
\<close>

definition halted :: "string list \<Rightarrow> ('o, 'e) SeederResult list \<Rightarrow> string set" where
  "halted order rs =
     {order ! j | j. j < length order \<and> (status (rs ! j) = Failed \<or> status (rs ! j) = Skipped)}"

definition called :: "string list \<Rightarrow> ('o, 'e) SeederResult list \<Rightarrow> string set" where
  "called order rs =
     {order ! j | j. j < length order \<and> (status (rs ! j) = Completed \<or> status (rs ! j) = Failed)}"

definition outcome_recorded ::
  "string list \<Rightarrow> ('o, 'e) SeederResult list \<Rightarrow> ('c, 'o, 'e) Seeder \<Rightarrow> 'c
     \<Rightarrow> string \<times> (string, 'o option) js_map \<times> 'h \<Rightarrow> bool" where
  "outcome_recorded order rs s ctx e \<longleftrightarrow>
     (\<exists>j < length order. order ! j = fst e \<and>
        (case run s ctx (fst (snd e)) of
           Inl err \<Rightarrow> status (rs ! j) = Failed \<and> error (rs ! j) = Some err
         | Inr out \<Rightarrow> status (rs ! j) = Completed \<and> output (rs ! j) = Some out))"

definition cont_inv ::
  "(string, ('c, 'o, 'e) Seeder) js_map \<Rightarrow> 'c \<Rightarrow> string list \<Rightarrow> nat \<Rightarrow> ('o, 'e, 'h) run_state
     \<Rightarrow> bool" where
  "cont_inv m ctx order i st \<longleftrightarrow>
     length (run_state.results st) = length order \<and>
     (\<forall>j < length order. SeederResult.name (run_state.results st ! j) = order ! j) \<and>
     (\<forall>j < length order. i \<le> j \<longrightarrow> run_state.results st ! j = pending_result (order ! j)) \<and>
     set (failedSeeders st) = halted order (run_state.results st) \<and>
     fst ` set (invocations (world st)) = called order (run_state.results st) \<and>
     (\<forall>j < length order. j < i \<longrightarrow>
        (\<forall>s. map_get m (order ! j) = Some s \<longrightarrow>
           (status (run_state.results st ! j) = Skipped
              \<longleftrightarrow> (\<exists>d \<in> set (dependsOn s). d \<in> halted order (run_state.results st))) \<and>
           (status (run_state.results st ! j) = Skipped
              \<or> status (run_state.results st ! j) = Completed
              \<or> status (run_state.results st ! j) = Failed))) \<and>
     (\<forall>e \<in> set (invocations (world st)). \<forall>s. map_get m (fst e) = Some s \<longrightarrow>
        outcome_recorded order (run_state.results st) s ctx e)"

text \<open>
  For every run, with or without \<open>continueOnFailure\<close>: what holds before the loop body runs
  at index \<open>i\<close>, and still holds when the loop is left with \<open>break\<close>.  The entries from \<open>i\<close>
  on are as created, the units that were called are those whose entry is completed or
  failed, every call is recorded in the entry of its unit, and a duration is the difference
  of two successive readings of the clock.
\<close>

definition exec_inv ::
  "(string, ('c, 'o, 'e) Seeder) js_map \<Rightarrow> 'c \<Rightarrow> (nat \<Rightarrow> int) \<Rightarrow> string list \<Rightarrow> nat
     \<Rightarrow> ('o, 'e, 'h) run_state \<Rightarrow> bool" where
  "exec_inv m ctx clock order i st \<longleftrightarrow>
     length (run_state.results st) = length order \<and>
     (\<forall>j < length order. SeederResult.name (run_state.results st ! j) = order ! j) \<and>
     (\<forall>j < length order. i \<le> j \<longrightarrow> run_state.results st ! j = pending_result (order ! j)) \<and>
     fst ` set (invocations (world st)) = called order (run_state.results st) \<and>
     (\<forall>e \<in> set (invocations (world st)). \<forall>s. map_get m (fst e) = Some s \<longrightarrow>
        outcome_recorded order (run_state.results st) s ctx e) \<and>
     (\<forall>j < length order. \<forall>d. durationMs (run_state.results st ! j) = Some d \<longrightarrow>
        (\<exists>k. d = clock (Suc k) - clock k))"

section \<open>Properties of the containers\<close>

lemma map_get_map_set: "map_get (map_set m k v) k' = (if k' = k then Some v else map_get m k')"
  by (induction m) auto

lemma map_get_eq_map_of: "map_get m k = map_of m k"
  by (induction m) auto

lemma map_get_None_iff: "map_get m k = None \<longleftrightarrow> k \<notin> fst ` set m"
  by (induction m) (auto split: if_splits)

lemma keys_map_set:
  "map fst (map_set m k v) = (if k \<in> fst ` set m then map fst m else map fst m @ [k])"
  by (induction m) (auto simp: rev_image_eqI)

lemma key_set_map_set: "fst ` set (map_set m k v) = insert k (fst ` set m)"
proof -
  have "set (map fst (map_set m k v)) = insert k (set (map fst m))"
    unfolding keys_map_set by auto
  then show ?thesis by simp
qed

lemma fold_map_set_keys:
  "fst ` set (fold (\<lambda>s m. map_set m (f s) (g s)) xs m0) = fst ` set m0 \<union> f ` set xs"
proof (induction xs arbitrary: m0)
  case Nil
  then show ?case by simp
next
  case (Cons x xs)
  show ?case
    using Cons.IH[of "map_set m0 (f x) (g x)"]
    by (simp add: key_set_map_set)
qed

lemma acyclic_empty_rel: "acyclic {}"
  by (simp add: acyclic_def)

lemma distinct_keys_map_set:
  "distinct (map fst m) \<Longrightarrow> distinct (map fst (map_set m k v))"
  by (simp add: keys_map_set)

lemma fold_map_set_distinct:
  "distinct (map fst m0) \<Longrightarrow> distinct (map fst (fold (\<lambda>s m. map_set m (f s) (g s)) xs m0))"
proof (induction xs arbitrary: m0)
  case Nil
  then show ?case by simp
next
  case (Cons x xs)
  show ?case
    using Cons.IH[of "map_set m0 (f x) (g x)"] Cons.prems
    by (simp add: distinct_keys_map_set)
qed

lemma map_get_distinct_mem:
  "distinct (map fst m) \<Longrightarrow> (k, v) \<in> set m \<Longrightarrow> map_get m k = Some v"
  by (simp add: map_get_eq_map_of)

lemma fold_map_set_get_other:
  "k \<notin> f ` set xs \<Longrightarrow> map_get (fold (\<lambda>s m. map_set m (f s) (g s)) xs m0) k = map_get m0 k"
  by (induction xs arbitrary: m0) (simp_all add: map_get_map_set)

lemma fold_map_set_get_distinct:
  "distinct (map f xs) \<Longrightarrow> x \<in> set xs \<Longrightarrow>
   map_get (fold (\<lambda>s m. map_set m (f s) (g s)) xs m0) (f x) = Some (g x)"
proof (induction xs arbitrary: m0)
  case Nil
  then show ?case by simp
next
  case (Cons y ys)
  show ?case
  proof (cases "x = y")
    case True
    then have "f x \<notin> f ` set ys" using Cons.prems(1) by auto
    then show ?thesis
      using True by (simp add: fold_map_set_get_other map_get_map_set)
  next
    case False
    then show ?thesis using Cons by simp
  qed
qed

lemma count_list_pos_iff: "0 < count_list xs x \<longleftrightarrow> x \<in> set xs"
  by (induction xs) auto



section \<open>Properties of the resolver\<close>

subsection \<open>Validation\<close>

lemma map_has_seederMap: "map_has (build_seederMap seeders) k \<longleftrightarrow> k \<in> name ` set seeders"
  unfolding map_has_def build_seederMap_def
  using fold_map_set_keys[of name "\<lambda>s. s" seeders "[]"]
  by (simp add: map_get_None_iff)

lemma validate_deps_None: "validate_deps m nm ds = None \<longleftrightarrow> (\<forall>d \<in> set ds. map_has m d)"
  by (induction ds) auto

lemma validate_deps_Some:
  "validate_deps m nm ds = Some e \<Longrightarrow> \<exists>d \<in> set ds. e = MissingDependencyError nm d \<and> \<not> map_has m d"
  by (induction ds) (auto split: if_splits)

lemma validate_all_None:
  "validate_all m seeders = None \<longleftrightarrow> (\<forall>s \<in> set seeders. \<forall>d \<in> set (dependsOn s). map_has m d)"
proof (induction seeders)
  case Nil
  then show ?case by simp
next
  case (Cons s seeders)
  show ?case
  proof (cases "validate_deps m (name s) (dependsOn s)")
    case None
    then show ?thesis
      using Cons.IH validate_deps_None[of m "name s" "dependsOn s"] by simp
  next
    case (Some e)
    then show ?thesis
      using validate_deps_None[of m "name s" "dependsOn s"] by simp
  qed
qed

lemma validate_all_Some:
  "validate_all m seeders = Some e \<Longrightarrow>
     \<exists>s \<in> set seeders. \<exists>d \<in> set (dependsOn s). e = MissingDependencyError (name s) d \<and> \<not> map_has m d"
  by (induction seeders) (auto split: option.splits dest: validate_deps_Some)

text \<open>
  C4.  If some unit of the registry lists a dependency name that no unit bears, then
  \<open>resolveDependencyOrder\<close> fails with \<open>MissingDependencyError\<close>, and the error carries the
  name of a unit of the registry together with a name from that unit's dependency list that
  no unit bears.  Nothing is assumed about cycles: the validation pass returns before the
  in-degrees are even computed, so the missing name is reported also when the registry is
  cyclic (the example below is).
\<close>

theorem missing_dependency_reported:
  assumes "s \<in> set seeders" and "d \<in> set (dependsOn s)" and "d \<notin> name ` set seeders"
  shows "\<exists>s' d'. resolveDependencyOrder seeders = Inl (MissingDependencyError (name s') d')
           \<and> s' \<in> set seeders \<and> d' \<in> set (dependsOn s') \<and> d' \<notin> name ` set seeders"
proof -
  let ?m = "build_seederMap seeders"
  have "validate_all ?m seeders \<noteq> None"
    using assms by (auto simp: validate_all_None map_has_seederMap)
  then obtain e where e: "validate_all ?m seeders = Some e" by auto
  from validate_all_Some[OF e] obtain s' d' where
    "s' \<in> set seeders" "d' \<in> set (dependsOn s')" "e = MissingDependencyError (name s') d'"
    "\<not> map_has ?m d'" by blast
  moreover have "resolveDependencyOrder seeders = Inl e"
    using e by (simp add: resolveDependencyOrder_def)
  ultimately show ?thesis
    by (auto simp: map_has_seederMap)
qed

theorem missing_dependency_reported_witness:
  "cyclic_missing_registry ! 1 \<in> set cyclic_missing_registry
   \<and> ''Z'' \<in> set (dependsOn (cyclic_missing_registry ! 1))
   \<and> ''Z'' \<notin> name ` set cyclic_missing_registry
   \<and> \<not> acyclic (set (dependency_edges cyclic_missing_registry))
   \<and> resolveDependencyOrder cyclic_missing_registry = Inl (MissingDependencyError ''B'' ''Z'')"
proof -
  have h1: "cyclic_missing_registry ! 1 \<in> set cyclic_missing_registry"
    by (simp add: cyclic_missing_registry_def)
  have h2: "''Z'' \<in> set (dependsOn (cyclic_missing_registry ! 1))"
    by (simp add: cyclic_missing_registry_def)
  have h3: "''Z'' \<notin> name ` set cyclic_missing_registry"
    by (simp add: cyclic_missing_registry_def)
  have h4: "\<not> acyclic (set (dependency_edges cyclic_missing_registry))"
  proof -
    have "(''A'', ''B'') \<in> set (dependency_edges cyclic_missing_registry)"
      and "(''B'', ''A'') \<in> set (dependency_edges cyclic_missing_registry)"
      by (simp_all add: cyclic_missing_registry_def dependency_edges_def)
    then have "(''A'', ''A'') \<in> (set (dependency_edges cyclic_missing_registry))\<^sup>+"
      by (meson trancl.simps)
    then show ?thesis by (auto simp: acyclic_def)
  qed
  from missing_dependency_reported[OF h1 h2 h3]
  obtain s' d' where r: "resolveDependencyOrder cyclic_missing_registry = Inl (MissingDependencyError (name s') d')"
    and "s' \<in> set cyclic_missing_registry" "d' \<in> set (dependsOn s')" "d' \<notin> name ` set cyclic_missing_registry"
    by blast
  then have "name s' = ''B'' \<and> d' = ''Z''"
    by (auto simp: cyclic_missing_registry_def)
  with r h1 h2 h3 h4 show ?thesis by simp
qed

subsection \<open>The lookup map of a registry with unique names\<close>

lemma seederMap_lookup:
  assumes "distinct (map name seeders)"
  shows "map_get (build_seederMap seeders) nm = Some s \<longleftrightarrow> s \<in> set seeders \<and> name s = nm"
proof
  assume g: "map_get (build_seederMap seeders) nm = Some s"
  then have "nm \<in> name ` set seeders"
    using map_has_seederMap[of seeders nm] by (simp add: map_has_def)
  then obtain s' where s': "s' \<in> set seeders" "name s' = nm" by auto
  then have "map_get (build_seederMap seeders) nm = Some s'"
    unfolding build_seederMap_def
    using fold_map_set_get_distinct[OF assms, of s' "\<lambda>s. s" "[]"] by simp
  then show "s \<in> set seeders \<and> name s = nm" using g s' by simp
next
  assume "s \<in> set seeders \<and> name s = nm"
  then show "map_get (build_seederMap seeders) nm = Some s"
    unfolding build_seederMap_def
    using fold_map_set_get_distinct[OF assms, of s "\<lambda>s. s" "[]"] by auto
qed

subsection \<open>The inner loop over the dependents\<close>

lemma degree_of_map_set:
  "degree_of (map_set m k v) k' = (if k' = k then v else degree_of m k')"
  by (simp add: degree_of_def map_get_map_set)

lemma reduce_degree_fst:
  "degree_of (fst (reduce_degree d st)) u
     = (if u = d then degree_of (fst st) d - 1 else degree_of (fst st) u)"
  by (simp add: reduce_degree_def Let_def degree_of_map_set) (simp add: degree_of_def)

lemma reduce_degree_snd:
  "snd (reduce_degree d st) = (if degree_of (fst st) d = 1 then snd st @ [d] else snd st)"
  by (simp add: reduce_degree_def Let_def degree_of_def)

lemma fold_reduce_degree_degree:
  "degree_of (fst (fold reduce_degree ds st)) u = degree_of (fst st) u - int (count_list ds u)"
proof (induction ds arbitrary: st)
  case Nil
  then show ?case by simp
next
  case (Cons d ds)
  show ?case
    using Cons.IH[of "reduce_degree d st"]
    by (simp add: reduce_degree_fst)
qed

lemma fold_reduce_degree_queue:
  "\<exists>new. snd (fold reduce_degree ds st) = snd st @ new \<and> distinct new \<and>
     (\<forall>u. u \<in> set new \<longleftrightarrow> u \<in> set ds \<and> 1 \<le> degree_of (fst st) u
                          \<and> degree_of (fst st) u \<le> int (count_list ds u))"
proof (induction ds arbitrary: st)
  case Nil
  then show ?case by simp
next
  case (Cons d ds)
  let ?st1 = "reduce_degree d st"
  from Cons.IH[of ?st1] obtain new1 where
    q: "snd (fold reduce_degree ds ?st1) = snd ?st1 @ new1" and
    d1: "distinct new1" and
    s1: "\<And>u. u \<in> set new1 \<longleftrightarrow> u \<in> set ds \<and> 1 \<le> degree_of (fst ?st1) u
                          \<and> degree_of (fst ?st1) u \<le> int (count_list ds u)"
    by blast
  define first where "first = (if degree_of (fst st) d = 1 then [d] else [])"
  have q': "snd (fold reduce_degree (d # ds) st) = snd st @ (first @ new1)"
    using q by (simp add: reduce_degree_snd first_def)
  have "d \<notin> set new1" if "degree_of (fst st) d = 1"
    using that s1[of d] by (simp add: reduce_degree_fst)
  then have dist: "distinct (first @ new1)"
    using d1 by (simp add: first_def)
  have mem: "u \<in> set (first @ new1) \<longleftrightarrow> u \<in> set (d # ds) \<and> 1 \<le> degree_of (fst st) u
                          \<and> degree_of (fst st) u \<le> int (count_list (d # ds) u)" for u
  proof (cases "u = d")
    case False
    then show ?thesis
      using s1[of u] by (simp add: reduce_degree_fst first_def)
  next
    case True
    have c: "0 < count_list ds d \<longleftrightarrow> d \<in> set ds"
      by (rule count_list_pos_iff)
    show ?thesis
    proof (cases "degree_of (fst st) d = 1")
      case one: True
      then show ?thesis using True by (simp add: first_def)
    next
      case False
      then have "u \<in> set (first @ new1) \<longleftrightarrow> d \<in> set ds \<and> 2 \<le> degree_of (fst st) d
                          \<and> degree_of (fst st) d - 1 \<le> int (count_list ds d)"
        using s1[of d] True by (simp add: reduce_degree_fst first_def) linarith
      also have "\<dots> \<longleftrightarrow> 2 \<le> degree_of (fst st) d
                          \<and> degree_of (fst st) d - 1 \<le> int (count_list ds d)"
        using c by linarith
      also have "\<dots> \<longleftrightarrow> 1 \<le> degree_of (fst st) d
                          \<and> degree_of (fst st) d \<le> int (count_list (d # ds) d)"
        using False by simp linarith
      finally show ?thesis using True by simp
    qed
  qed
  show ?case
    using q' dist mem by blast
qed

subsection \<open>The graph that the resolver builds\<close>

lemma fst_fold_build_step:
  "fst (fold build_step xs g)
     = fold (\<lambda>s m. map_set m (name s) (int (length (dependsOn s)))) xs (fst g)"
  by (induction xs arbitrary: g) (simp_all add: build_step_def)

lemma snd_fold_build_step:
  "snd (fold build_step xs g)
     = fold (\<lambda>s dp. fold (add_dependent (name s)) (dependsOn s) dp) xs (snd g)"
  by (induction xs arbitrary: g) (simp_all add: build_step_def)

lemma inDegree_keys:
  "fst ` set (fst (build_graph seeders)) = name ` set seeders"
  unfolding build_graph_def fst_fold_build_step init_inDegree_def
  by (simp add: fold_map_set_keys)

lemma inDegree_distinct:
  "distinct (map fst (fst (build_graph seeders)))"
proof -
  have "distinct (map fst (init_inDegree seeders))"
    unfolding init_inDegree_def
    by (rule fold_map_set_distinct[where g = "\<lambda>_. 0"]) simp
  then show ?thesis
    unfolding build_graph_def fst_fold_build_step
    by (simp add: fold_map_set_distinct)
qed

lemma dependents_within_set:
  "dependents_within dp N \<Longrightarrow> set ds \<subseteq> N \<Longrightarrow> dependents_within (map_set dp k ds) N"
  by (simp add: dependents_within_def map_get_map_set)

lemma dependents_within_add:
  assumes w: "dependents_within dp N" and n: "nm \<in> N"
  shows "dependents_within (add_dependent nm dep dp) N"
proof (cases "map_get dp dep")
  case None
  then show ?thesis using w by (simp add: add_dependent_def)
next
  case (Some a)
  have "set (a @ [nm]) \<subseteq> N"
    using w n Some unfolding dependents_within_def by auto
  then show ?thesis
    using Some w by (simp add: add_dependent_def dependents_within_set)
qed

lemma dependents_within_fold_add:
  "dependents_within dp N \<Longrightarrow> nm \<in> N \<Longrightarrow> dependents_within (fold (add_dependent nm) deps dp) N"
  by (induction deps arbitrary: dp) (simp_all add: dependents_within_add)

lemma dependents_within_init:
  "dependents_within dp N \<Longrightarrow>
   dependents_within (fold (\<lambda>s m. map_set m (name s) []) xs dp) N"
  by (induction xs arbitrary: dp) (simp_all add: dependents_within_set)

lemma dependents_within_build:
  "dependents_within dp N \<Longrightarrow> name ` set xs \<subseteq> N \<Longrightarrow>
   dependents_within (fold (\<lambda>s dp. fold (add_dependent (name s)) (dependsOn s) dp) xs dp) N"
  by (induction xs arbitrary: dp) (simp_all add: dependents_within_fold_add)

lemma dependents_within_graph:
  "dependents_within (snd (build_graph seeders)) (name ` set seeders)"
proof -
  have "dependents_within [] (name ` set seeders)"
    by (simp add: dependents_within_def)
  then have "dependents_within (init_dependents seeders) (name ` set seeders)"
    unfolding init_dependents_def by (rule dependents_within_init)
  then show ?thesis
    unfolding build_graph_def snd_fold_build_step
    by (simp add: dependents_within_build)
qed

subsection \<open>What the queue loop keeps\<close>

lemma process_queue_distinct_within:
  assumes "dependents_within dependents N"
      and "distinct (result @ queue)"
      and "set (result @ queue) \<subseteq> N"
      and "\<forall>u \<in> set (result @ queue). degree_of inDegree u \<le> 0"
  shows "distinct (process_queue dependents inDegree queue result)
         \<and> set (process_queue dependents inDegree queue result) \<subseteq> N"
  using assms
proof (induction dependents inDegree queue result rule: process_queue.induct)
  case (1 dependents inDegree result)
  then show ?case by simp
next
  case (2 dependents inDegree current queue result)
  define deps where "deps = (case map_get dependents current of Some ds \<Rightarrow> ds | None \<Rightarrow> [])"
  define st where "st = fold reduce_degree deps (inDegree, queue)"
  have deps_N: "set deps \<subseteq> N"
  proof (cases "map_get dependents current")
    case None
    then show ?thesis by (simp add: deps_def)
  next
    case (Some ds)
    then show ?thesis
      using "2.prems"(1) unfolding dependents_within_def deps_def by auto
  qed
  obtain new where
    q: "snd st = queue @ new" and dn: "distinct new" and
    sn: "\<And>u. u \<in> set new \<longleftrightarrow> u \<in> set deps \<and> 1 \<le> degree_of inDegree u
                          \<and> degree_of inDegree u \<le> int (count_list deps u)"
    using fold_reduce_degree_queue[of deps "(inDegree, queue)"] unfolding st_def by auto
  have deg: "degree_of (fst st) u = degree_of inDegree u - int (count_list deps u)" for u
    unfolding st_def by (simp add: fold_reduce_degree_degree)
  have old: "\<forall>u \<in> set (result @ current # queue). degree_of inDegree u \<le> 0"
    using "2.prems"(4) .
  have disj: "u \<notin> set (result @ current # queue)" if "u \<in> set new" for u
    using that sn[of u] old by force
  have a: "distinct ((result @ [current]) @ snd st)"
    using "2.prems"(2) dn disj by (auto simp: q)
  have b: "set ((result @ [current]) @ snd st) \<subseteq> N"
    using "2.prems"(3) deps_N sn by (auto simp: q)
  have c: "\<forall>u \<in> set ((result @ [current]) @ snd st). degree_of (fst st) u \<le> 0"
  proof
    fix u assume "u \<in> set ((result @ [current]) @ snd st)"
    then consider "u \<in> set (result @ current # queue)" | "u \<in> set new"
      by (auto simp: q)
    then show "degree_of (fst st) u \<le> 0"
    proof cases
      case 1
      then show ?thesis using old deg[of u] by force
    next
      case 2
      then show ?thesis using sn[of u] deg[of u] by simp
    qed
  qed
  have "distinct (process_queue dependents (fst st) (snd st) (result @ [current]))
         \<and> set (process_queue dependents (fst st) (snd st) (result @ [current])) \<subseteq> N"
    by (rule "2.IH"[OF deps_def st_def "2.prems"(1) a b c])
  then show ?case
    by (simp add: Let_def deps_def st_def)
qed

lemma initial_queue_zero:
  "distinct (map fst m) \<Longrightarrow> u \<in> set (initial_queue m) \<Longrightarrow> degree_of m u = 0"
  by (auto simp: initial_queue_def degree_of_def map_get_distinct_mem)

lemma initial_queue_distinct:
  "distinct (map fst m) \<Longrightarrow> distinct (initial_queue m)"
  unfolding initial_queue_def by (simp add: distinct_map_filter)

lemma initial_queue_keys: "set (initial_queue m) \<subseteq> fst ` set m"
  by (auto simp: initial_queue_def)

lemma kahn_order_distinct_within:
  "distinct (kahn_order seeders) \<and> set (kahn_order seeders) \<subseteq> name ` set seeders"
  unfolding kahn_order_def Let_def
proof (rule process_queue_distinct_within[OF dependents_within_graph])
  show "distinct ([] @ initial_queue (fst (build_graph seeders)))"
    by (simp add: initial_queue_distinct inDegree_distinct)
  show "set ([] @ initial_queue (fst (build_graph seeders))) \<subseteq> name ` set seeders"
    using initial_queue_keys[of "fst (build_graph seeders)"] by (simp add: inDegree_keys)
  show "\<forall>u\<in>set ([] @ initial_queue (fst (build_graph seeders))).
           degree_of (fst (build_graph seeders)) u \<le> 0"
    by (simp add: initial_queue_zero inDegree_distinct)
qed

subsection \<open>Degrees and dependents of a registry with unique names\<close>

lemma add_dependent_get:
  "map_get (add_dependent nm dep dp) k
     = map_option (\<lambda>l. if k = dep then l @ [nm] else l) (map_get dp k)"
  by (cases "map_get dp dep"; cases "map_get dp k")
     (auto simp: add_dependent_def map_get_map_set)

lemma fold_add_dependent_get:
  "map_get (fold (add_dependent nm) ds dp) k
     = map_option (\<lambda>l. l @ map (\<lambda>_. nm) (filter (\<lambda>x. x = k) ds)) (map_get dp k)"
proof (induction ds arbitrary: dp)
  case Nil
  then show ?case by (simp add: option.map_ident)
next
  case (Cons d ds)
  show ?case
    by (cases "map_get dp k") (simp_all add: Cons.IH add_dependent_get)
qed

lemma fold_seeders_dependents_get:
  "map_get (fold (\<lambda>s dp. fold (add_dependent (name s)) (dependsOn s) dp) xs dp) k
     = map_option (\<lambda>l. l @ dependents_of xs k) (map_get dp k)"
proof (induction xs arbitrary: dp)
  case Nil
  then show ?case by (simp add: dependents_of_def option.map_ident)
next
  case (Cons x xs)
  show ?case
    by (cases "map_get dp k") (simp_all add: Cons.IH fold_add_dependent_get dependents_of_def)
qed

lemma fold_map_set_const_get:
  "map_get (fold (\<lambda>s m. map_set m (f s) c) xs m0) k
     = (if k \<in> f ` set xs then Some c else map_get m0 k)"
  by (induction xs arbitrary: m0) (auto simp: map_get_map_set)

lemma init_dependents_get:
  "map_get (init_dependents seeders) k = (if k \<in> name ` set seeders then Some [] else None)"
  by (simp add: init_dependents_def fold_map_set_const_get)

lemma dependents_get:
  "map_get (snd (build_graph seeders)) k
     = (if k \<in> name ` set seeders then Some (dependents_of seeders k) else None)"
  unfolding build_graph_def snd_fold_build_step
  by (simp add: fold_seeders_dependents_get init_dependents_get)

lemma count_list_const_map: "count_list (map (\<lambda>_. a) xs) u = (if u = a then length xs else 0)"
  by (induction xs) auto

lemma count_dependents_of_other:
  "u \<notin> name ` set seeders \<Longrightarrow> count_list (dependents_of seeders d) u = 0"
  by (induction seeders) (auto simp: dependents_of_def count_list_const_map)

lemma length_filter_eq_count: "length (filter (\<lambda>x. x = d) xs) = count_list xs d"
  by (induction xs) auto

lemma count_dependents_of:
  assumes "distinct (map name seeders)" and "s \<in> set seeders"
  shows "count_list (dependents_of seeders d) (name s) = count_list (dependsOn s) d"
  using assms
proof (induction seeders)
  case Nil
  then show ?case by simp
next
  case (Cons x xs)
  have split: "dependents_of (x # xs) d
                 = map (\<lambda>_. name x) (filter (\<lambda>y. y = d) (dependsOn x)) @ dependents_of xs d"
    by (simp add: dependents_of_def)
  show ?case
  proof (cases "s = x")
    case True
    then have "name s \<notin> name ` set xs" using Cons.prems(1) by auto
    then have "count_list (dependents_of xs d) (name s) = 0"
      by (rule count_dependents_of_other)
    then show ?thesis
      using True by (simp add: split count_list_const_map length_filter_eq_count)
  next
    case False
    then have "s \<in> set xs" using Cons.prems(2) by simp
    moreover have "name x \<notin> name ` set xs" using Cons.prems(1) by simp
    then have "name s \<noteq> name x" using \<open>s \<in> set xs\<close> by (metis imageI)
    ultimately show ?thesis
      using Cons.IH Cons.prems(1) by (simp add: split count_list_const_map)
  qed
qed

lemma inDegree_get:
  assumes "distinct (map name seeders)" and "s \<in> set seeders"
  shows "map_get (fst (build_graph seeders)) (name s) = Some (int (length (dependsOn s)))"
  unfolding build_graph_def fst_fold_build_step
  using fold_map_set_get_distinct[OF assms, of "\<lambda>s. int (length (dependsOn s))"]
  by simp

lemma fold_map_set_keys_grow:
  "distinct (map f xs) \<Longrightarrow> f ` set xs \<inter> fst ` set m0 = {} \<Longrightarrow>
     map fst (fold (\<lambda>s m. map_set m (f s) (g s)) xs m0) = map fst m0 @ map f xs"
proof (induction xs arbitrary: m0)
  case Nil
  then show ?case by simp
next
  case (Cons x xs)
  have "map fst (map_set m0 (f x) (g x)) = map fst m0 @ [f x]"
    using Cons.prems(2) by (simp add: keys_map_set)
  moreover have "f ` set xs \<inter> fst ` set (map_set m0 (f x) (g x)) = {}"
    using Cons.prems by (auto simp: key_set_map_set)
  ultimately show ?case
    using Cons.IH[of "map_set m0 (f x) (g x)"] Cons.prems(1) by simp
qed

lemma fold_map_set_keys_keep:
  "f ` set xs \<subseteq> fst ` set m0 \<Longrightarrow>
     map fst (fold (\<lambda>s m. map_set m (f s) (g s)) xs m0) = map fst m0"
proof (induction xs arbitrary: m0)
  case Nil
  then show ?case by simp
next
  case (Cons x xs)
  have "map fst (map_set m0 (f x) (g x)) = map fst m0"
    using Cons.prems by (simp add: keys_map_set)
  moreover have "f ` set xs \<subseteq> fst ` set (map_set m0 (f x) (g x))"
    using Cons.prems by (auto simp: key_set_map_set)
  ultimately show ?case
    using Cons.IH[of "map_set m0 (f x) (g x)"] by simp
qed

lemma inDegree_key_order:
  assumes "distinct (map name seeders)"
  shows "map fst (fst (build_graph seeders)) = map name seeders"
proof -
  have init: "map fst (init_inDegree seeders) = map name seeders"
    unfolding init_inDegree_def
    using fold_map_set_keys_grow[OF assms, of "[]" "\<lambda>_. 0"] by simp
  then have "name ` set seeders \<subseteq> fst ` set (init_inDegree seeders)"
    by (metis list.set_map order_refl)
  then show ?thesis
    unfolding build_graph_def fst_fold_build_step
    using fold_map_set_keys_keep[of name seeders "init_inDegree seeders"] init by simp
qed

subsection \<open>The invariant of the queue loop\<close>

text \<open>An invariant of the outer loop holds of the state in which the queue has run empty.\<close>

lemma process_queue_invariant:
  assumes "P inDegree queue result"
      and "\<And>deg c q r. P deg (c # q) r \<Longrightarrow>
             P (fst (fold reduce_degree (dependents_list dependents c) (deg, q)))
               (snd (fold reduce_degree (dependents_list dependents c) (deg, q))) (r @ [c])"
  shows "\<exists>deg. P deg [] (process_queue dependents inDegree queue result)"
  using assms
proof (induction dependents inDegree queue result rule: process_queue.induct)
  case (1 dependents inDegree result)
  then show ?case by auto
next
  case (2 dependents inDegree current queue result)
  define deps where "deps = (case map_get dependents current of Some ds \<Rightarrow> ds | None \<Rightarrow> [])"
  define st where "st = fold reduce_degree deps (inDegree, queue)"
  have "P (fst st) (snd st) (result @ [current])"
    using "2.prems"(2)[OF "2.prems"(1)] by (simp add: st_def deps_def dependents_list_def)
  then have "\<exists>deg. P deg [] (process_queue dependents (fst st) (snd st) (result @ [current]))"
    using "2.prems"(2) by (intro "2.IH"[OF deps_def st_def]) auto
  then show ?case
    by (simp add: Let_def deps_def st_def)
qed

lemma length_filter_insert:
  "c \<notin> A \<Longrightarrow>
   int (length (filter (\<lambda>d. d \<notin> insert c A) xs))
     = int (length (filter (\<lambda>d. d \<notin> A) xs)) - int (count_list xs c)"
  by (induction xs) auto

lemma count_le_filter:
  "c \<notin> A \<Longrightarrow> count_list xs c \<le> length (filter (\<lambda>d. d \<notin> A) xs)"
  by (induction xs) auto

lemma kahn_inv_step:
  fixes seeders :: "('c, 'o, 'e) Seeder list"
  assumes dn: "distinct (map name seeders)"
      and inv: "kahn_inv seeders deg (c # q) r"
  shows "kahn_inv seeders
           (fst (fold reduce_degree (dependents_list (snd (build_graph seeders)) c) (deg, q)))
           (snd (fold reduce_degree (dependents_list (snd (build_graph seeders)) c) (deg, q)))
           (r @ [c])"
proof -
  let ?N = "name ` set seeders"
  define ds where "ds = dependents_list (snd (build_graph seeders)) c"
  define st where "st = fold reduce_degree ds (deg, q)"
  have dist: "distinct (r @ c # q)" and sub: "set (r @ c # q) \<subseteq> ?N"
    and degs: "\<forall>s \<in> set seeders.
        degree_of deg (name s) = int (length (filter (\<lambda>d. d \<notin> set r) (dependsOn s)))"
    and mem: "\<forall>s \<in> set seeders. name s \<in> set (r @ c # q) \<longleftrightarrow> set (dependsOn s) \<subseteq> set r"
    and topo: "\<forall>s \<in> set seeders. name s \<in> set r \<longrightarrow>
        set (dependsOn s) \<subseteq> set (takeWhile (\<lambda>x. x \<noteq> name s) r)"
    using inv unfolding kahn_inv_def by blast+
  have cN: "c \<in> ?N" and cr: "c \<notin> set r" using sub dist by auto
  have ds_eq: "ds = dependents_of seeders c"
    using cN by (simp add: ds_def dependents_list_def dependents_get)
  have ds_N: "set ds \<subseteq> ?N"
    unfolding ds_eq dependents_of_def by auto
  obtain new where
    q': "snd st = q @ new" and dnew: "distinct new" and
    snew: "\<And>u. u \<in> set new \<longleftrightarrow> u \<in> set ds \<and> 1 \<le> degree_of deg u
                          \<and> degree_of deg u \<le> int (count_list ds u)"
    using fold_reduce_degree_queue[of ds "(deg, q)"] unfolding st_def by auto
  have deg': "degree_of (fst st) u = degree_of deg u - int (count_list ds u)" for u
    unfolding st_def by (simp add: fold_reduce_degree_degree)
  have cnt: "count_list ds (name s) = count_list (dependsOn s) c" if "s \<in> set seeders" for s
    unfolding ds_eq using count_dependents_of[OF dn that] .
  have degs': "degree_of (fst st) (name s)
                 = int (length (filter (\<lambda>d. d \<notin> set (r @ [c])) (dependsOn s)))"
    if "s \<in> set seeders" for s
    using degs that cnt[OF that] length_filter_insert[OF cr, of "dependsOn s"]
    by (simp add: deg')
  have zero_old: "name s \<in> set (r @ c # q) \<longleftrightarrow> degree_of deg (name s) = 0"
    if "s \<in> set seeders" for s
    using mem degs that by (auto simp: filter_empty_conv)
  have zero_new: "set (dependsOn s) \<subseteq> set (r @ [c]) \<longleftrightarrow> degree_of (fst st) (name s) = 0"
    if "s \<in> set seeders" for s
    using degs'[OF that] by (auto simp: filter_empty_conv)
  have bound: "int (count_list ds (name s)) \<le> degree_of deg (name s)" if "s \<in> set seeders" for s
    using degs that cnt[OF that] count_le_filter[OF cr, of "dependsOn s"] by simp
  have mem': "name s \<in> set ((r @ [c]) @ snd st) \<longleftrightarrow> set (dependsOn s) \<subseteq> set (r @ [c])"
    if s: "s \<in> set seeders" for s
  proof -
    have "name s \<in> set ((r @ [c]) @ snd st)
            \<longleftrightarrow> name s \<in> set (r @ c # q) \<or> name s \<in> set new"
      by (auto simp: q')
    also have "\<dots> \<longleftrightarrow> degree_of deg (name s) = 0
                 \<or> (name s \<in> set ds \<and> 1 \<le> degree_of deg (name s)
                      \<and> degree_of deg (name s) \<le> int (count_list ds (name s)))"
      using zero_old[OF s] snew[of "name s"] by simp
    also have "\<dots> \<longleftrightarrow> degree_of deg (name s) = int (count_list ds (name s))"
      using bound[OF s] count_list_pos_iff[of ds "name s"] by auto
    also have "\<dots> \<longleftrightarrow> degree_of (fst st) (name s) = 0"
      by (simp add: deg')
    finally show ?thesis using zero_new[OF s] by simp
  qed
  have disj: "u \<notin> set (r @ c # q)" if "u \<in> set new" for u
  proof
    assume in_old: "u \<in> set (r @ c # q)"
    then obtain s where s: "s \<in> set seeders" "name s = u" using sub by auto
    then have "degree_of deg u = 0" using zero_old[of s] in_old by simp
    then show False using snew[of u] that by simp
  qed
  have a: "distinct ((r @ [c]) @ snd st)"
    using dist dnew disj by (auto simp: q')
  have b: "set ((r @ [c]) @ snd st) \<subseteq> ?N"
    using sub ds_N snew by (auto simp: q')
  have topo': "set (dependsOn s) \<subseteq> set (takeWhile (\<lambda>x. x \<noteq> name s) (r @ [c]))"
    if s: "s \<in> set seeders" and in_r: "name s \<in> set (r @ [c])" for s
  proof (cases "name s \<in> set r")
    case True
    then have "takeWhile (\<lambda>x. x \<noteq> name s) (r @ [c]) = takeWhile (\<lambda>x. x \<noteq> name s) r"
      by (intro takeWhile_append1[of "name s"]) simp_all
    then show ?thesis using topo s True by simp
  next
    case False
    then have c_eq: "name s = c" using in_r by simp
    have "takeWhile (\<lambda>x. x \<noteq> name s) (r @ [c]) = r @ takeWhile (\<lambda>x. x \<noteq> name s) [c]"
      using False by (intro takeWhile_append2) auto
    then have "takeWhile (\<lambda>x. x \<noteq> name s) (r @ [c]) = r"
      using c_eq by simp
    moreover have "set (dependsOn s) \<subseteq> set r"
      using mem s c_eq by auto
    ultimately show ?thesis by simp
  qed
  show ?thesis
    unfolding kahn_inv_def ds_def[symmetric] st_def[symmetric]
    using a b degs' mem' topo' by blast
qed

lemma initial_queue_mem:
  assumes "distinct (map fst m)"
  shows "u \<in> set (initial_queue m) \<longleftrightarrow> map_get m u = Some 0"
proof
  assume "u \<in> set (initial_queue m)"
  then have "(u, 0) \<in> set m" by (auto simp: initial_queue_def)
  then show "map_get m u = Some 0" by (rule map_get_distinct_mem[OF assms])
next
  assume "map_get m u = Some 0"
  then have "(u, 0) \<in> set m" by (simp add: map_get_eq_map_of map_of_SomeD)
  then show "u \<in> set (initial_queue m)" by (force simp: initial_queue_def)
qed

lemma kahn_inv_initial:
  fixes seeders :: "('c, 'o, 'e) Seeder list"
  assumes dn: "distinct (map name seeders)"
  shows "kahn_inv seeders (fst (build_graph seeders)) (initial_queue (fst (build_graph seeders))) []"
proof -
  let ?m = "fst (build_graph seeders)"
  have a: "distinct ([] @ initial_queue ?m)"
    by (simp add: initial_queue_distinct inDegree_distinct)
  have b: "set ([] @ initial_queue ?m) \<subseteq> name ` set seeders"
    using initial_queue_keys[of ?m] by (simp add: inDegree_keys)
  have c: "degree_of ?m (name s) = int (length (filter (\<lambda>d. d \<notin> set []) (dependsOn s)))"
    if "s \<in> set seeders" for s
    using inDegree_get[OF dn that] by (simp add: degree_of_def)
  have d: "name s \<in> set ([] @ initial_queue ?m) \<longleftrightarrow> set (dependsOn s) \<subseteq> set []"
    if "s \<in> set seeders" for s
    using inDegree_get[OF dn that] initial_queue_mem[OF inDegree_distinct, of "name s" seeders]
    by simp
  show ?thesis
    unfolding kahn_inv_def using a b c d by simp
qed

lemma kahn_order_invariant:
  fixes seeders :: "('c, 'o, 'e) Seeder list"
  assumes dn: "distinct (map name seeders)"
  shows "\<exists>deg. kahn_inv seeders deg [] (kahn_order seeders)"
  unfolding kahn_order_def Let_def
  by (rule process_queue_invariant[where P = "kahn_inv seeders", OF kahn_inv_initial[OF dn]])
     (rule kahn_inv_step[OF dn])

lemma kahn_order_closed:
  fixes seeders :: "('c, 'o, 'e) Seeder list"
  assumes dn: "distinct (map name seeders)" and s: "s \<in> set seeders"
  shows "name s \<in> set (kahn_order seeders) \<longleftrightarrow> set (dependsOn s) \<subseteq> set (kahn_order seeders)"
    and "name s \<in> set (kahn_order seeders) \<Longrightarrow>
           set (dependsOn s) \<subseteq> set (takeWhile (\<lambda>x. x \<noteq> name s) (kahn_order seeders))"
  using kahn_order_invariant[OF dn] s unfolding kahn_inv_def by auto

subsection \<open>Positions in the order\<close>

lemma indexOf_takeWhile:
  "indexOf xs x = (if x \<in> set xs then int (length (takeWhile (\<lambda>y. y \<noteq> x) xs)) else - 1)"
  by (induction xs) (auto simp: Let_def)

lemma takeWhile_earlier:
  "d \<in> set (takeWhile (\<lambda>y. y \<noteq> u) xs) \<Longrightarrow>
   length (takeWhile (\<lambda>y. y \<noteq> d) xs) < length (takeWhile (\<lambda>y. y \<noteq> u) xs)"
  by (induction xs) (auto split: if_splits)

lemma indexOf_earlier:
  assumes "d \<in> set (takeWhile (\<lambda>y. y \<noteq> u) xs)" and "u \<in> set xs"
  shows "0 \<le> indexOf xs d \<and> indexOf xs d < indexOf xs u"
proof -
  have "d \<in> set xs" using assms(1) by (rule set_takeWhileD[THEN conjunct1])
  then show ?thesis
    using takeWhile_earlier[OF assms(1)] assms(2) by (simp add: indexOf_takeWhile)
qed

subsection \<open>A resolved registry\<close>

lemma resolved_order:
  assumes "resolveDependencyOrder seeders = Inr order"
  shows "order = kahn_order seeders" and "length order = length seeders"
    and "validate_all (build_seederMap seeders) seeders = None"
  using assms
  by (auto simp: resolveDependencyOrder_def Let_def split: option.splits if_splits)

lemma resolved_names:
  assumes "resolveDependencyOrder seeders = Inr order"
  shows "distinct order" and "set order = name ` set seeders" and "distinct (map name seeders)"
proof -
  let ?N = "name ` set seeders"
  have o: "order = kahn_order seeders" and l: "length order = length seeders"
    using resolved_order[OF assms] by simp_all
  show d: "distinct order" and "set order = ?N" and "distinct (map name seeders)"
  proof -
    show d: "distinct order" using o kahn_order_distinct_within[of seeders] by simp
    have sub: "set order \<subseteq> ?N" using o kahn_order_distinct_within[of seeders] by simp
    have "card (set order) = length seeders" using d l by (simp add: distinct_card)
    moreover have "card ?N \<le> length seeders"
      using card_length[of "map name seeders"] by simp
    moreover have "card (set order) \<le> card ?N"
      using sub by (simp add: card_mono)
    ultimately have c: "card ?N = length seeders" "card (set order) = card ?N" by simp_all
    show "set order = ?N"
      using sub c(2) by (simp add: card_subset_eq)
    show "distinct (map name seeders)"
      using c(1) by (simp add: card_distinct)
  qed
qed

subsection \<open>Acyclic registries\<close>

lemma dependency_edge_iff:
  "(d, u) \<in> set (dependency_edges seeders)
     \<longleftrightarrow> (\<exists>s \<in> set seeders. name s = u \<and> d \<in> set (dependsOn s))"
  by (auto simp: dependency_edges_def)

lemma no_source_not_acyclic:
  assumes "finite r" and "x \<in> S" and "\<forall>u \<in> S. \<exists>d \<in> S. (d, u) \<in> r"
  shows "\<not> acyclic r"
proof
  assume "acyclic r"
  then have "wf r" using assms(1) by (rule finite_acyclic_wf[rotated])
  then obtain z where "z \<in> S" and min: "\<And>y. (y, z) \<in> r \<Longrightarrow> y \<notin> S"
    using assms(2) by (rule wfE_min) blast
  then show False using assms(3) by blast
qed

lemma kahn_order_complete:
  fixes seeders :: "('c, 'o, 'e) Seeder list"
  assumes dn: "distinct (map name seeders)"
      and ex: "\<forall>s \<in> set seeders. set (dependsOn s) \<subseteq> name ` set seeders"
      and ac: "acyclic (set (dependency_edges seeders))"
  shows "set (kahn_order seeders) = name ` set seeders"
proof (rule ccontr)
  let ?r = "kahn_order seeders"
  let ?S = "name ` set seeders - set ?r"
  assume "set ?r \<noteq> name ` set seeders"
  then obtain x where x: "x \<in> ?S"
    using kahn_order_distinct_within[of seeders] by auto
  have "\<exists>d \<in> ?S. (d, u) \<in> set (dependency_edges seeders)" if "u \<in> ?S" for u
  proof -
    have "u \<in> name ` set seeders" using that by simp
    then obtain s where s: "s \<in> set seeders" "name s = u" by blast
    then have "\<not> set (dependsOn s) \<subseteq> set ?r"
      using kahn_order_closed(1)[OF dn s(1)] that by simp
    then obtain d where d: "d \<in> set (dependsOn s)" "d \<notin> set ?r" by auto
    then have "d \<in> ?S" using ex s(1) by auto
    moreover have "(d, u) \<in> set (dependency_edges seeders)"
      using s d(1) by (auto simp: dependency_edge_iff)
    ultimately show ?thesis by blast
  qed
  then have "\<not> acyclic (set (dependency_edges seeders))"
    using no_source_not_acyclic[of "set (dependency_edges seeders)" x ?S] x by blast
  then show False using ac by simp
qed

text \<open>
  C1.  If the names of the registry are unique, every dependency name is the name of a unit,
  and the dependency graph is acyclic, then \<open>resolveDependencyOrder\<close> returns an order; the
  order has no repetition and holds exactly the names of the registry (so every name once);
  and for every unit and every name in its dependency list, the position of the dependency in
  the order (as \<open>indexOf\<close> reports it) exists and is strictly smaller than the position of
  the unit.
\<close>

theorem acyclic_registry_resolves:
  fixes seeders :: "('c, 'o, 'e) Seeder list"
  assumes dn: "distinct (map name seeders)"
      and ex: "\<forall>s \<in> set seeders. set (dependsOn s) \<subseteq> name ` set seeders"
      and ac: "acyclic (set (dependency_edges seeders))"
  shows "\<exists>order. resolveDependencyOrder seeders = Inr order
           \<and> distinct order \<and> set order = name ` set seeders \<and> length order = length seeders
           \<and> (\<forall>s \<in> set seeders. \<forall>d \<in> set (dependsOn s).
                 0 \<le> indexOf order d \<and> indexOf order d < indexOf order (name s))"
proof -
  let ?r = "kahn_order seeders"
  have d: "distinct ?r" using kahn_order_distinct_within[of seeders] by simp
  have s: "set ?r = name ` set seeders" by (rule kahn_order_complete[OF dn ex ac])
  have "length ?r = card (name ` set seeders)"
    using d s by (metis distinct_card)
  also have "\<dots> = length seeders"
    using dn by (metis distinct_card length_map list.set_map)
  finally have l: "length ?r = length seeders" .
  have v: "validate_all (build_seederMap seeders) seeders = None"
    using ex by (auto simp: validate_all_None map_has_seederMap)
  have res: "resolveDependencyOrder seeders = Inr ?r"
    using v l by (simp add: resolveDependencyOrder_def Let_def)
  have pos: "0 \<le> indexOf ?r dep \<and> indexOf ?r dep < indexOf ?r (name u)"
    if "u \<in> set seeders" "dep \<in> set (dependsOn u)" for u dep
  proof -
    have "name u \<in> set ?r" using s that(1) by simp
    then have "dep \<in> set (takeWhile (\<lambda>x. x \<noteq> name u) ?r)"
      using kahn_order_closed(2)[OF dn that(1)] that(2) by blast
    then show ?thesis using \<open>name u \<in> set ?r\<close> by (rule indexOf_earlier)
  qed
  show ?thesis
    using res d s l pos by blast
qed

theorem acyclic_registry_resolves_witness:
  "distinct (map name diamond_registry)
   \<and> set (concat (map dependsOn diamond_registry)) \<subseteq> name ` set diamond_registry
   \<and> acyclic (set (dependency_edges diamond_registry))
   \<and> resolveDependencyOrder diamond_registry = Inr [''A'', ''B'', ''C'', ''D'']
   \<and> indexOf [''A'', ''B'', ''C'', ''D''] ''B'' < indexOf [''A'', ''B'', ''C'', ''D''] ''D''
   \<and> indexOf [''A'', ''B'', ''C'', ''D''] ''A'' < indexOf [''A'', ''B'', ''C'', ''D''] ''C''"
proof -
  have h1: "distinct (map name diamond_registry)"
    by (simp add: diamond_registry_def)
  have h2': "set (concat (map dependsOn diamond_registry)) \<subseteq> name ` set diamond_registry"
    by (simp add: diamond_registry_def)
  then have h2: "\<forall>s \<in> set diamond_registry. set (dependsOn s) \<subseteq> name ` set diamond_registry"
    by auto
  have h3: "acyclic (set (dependency_edges diamond_registry))"
    by (simp add: diamond_registry_def dependency_edges_def acyclic_empty_rel rtrancl_insert)
  have r: "resolveDependencyOrder diamond_registry = Inr [''A'', ''B'', ''C'', ''D'']"
    by code_simp
  from acyclic_registry_resolves[OF h1 h2 h3]
  obtain order where o: "resolveDependencyOrder diamond_registry = Inr order"
    and pos: "\<forall>s \<in> set diamond_registry. \<forall>d \<in> set (dependsOn s).
                 0 \<le> indexOf order d \<and> indexOf order d < indexOf order (name s)"
    by blast
  have order: "order = [''A'', ''B'', ''C'', ''D'']" using o r by simp
  have "diamond_registry ! 0 \<in> set diamond_registry" "diamond_registry ! 2 \<in> set diamond_registry"
    by (simp_all add: diamond_registry_def)
  with pos have "indexOf order ''B'' < indexOf order ''D''" "indexOf order ''A'' < indexOf order ''C''"
    by (force simp: diamond_registry_def)+
  then show ?thesis
    using h1 h2' h3 r order by simp
qed

subsection \<open>The cycle search\<close>

lemma indexOf_absent: "indexOf xs x = - 1 \<longleftrightarrow> x \<notin> set xs"
  by (simp add: indexOf_takeWhile)

lemma takeWhile_neq_stops:
  "x \<in> set xs \<Longrightarrow> length (takeWhile (\<lambda>y. y \<noteq> x) xs) < length xs
                 \<and> xs ! length (takeWhile (\<lambda>y. y \<noteq> x) xs) = x"
  by (induction xs) auto

lemma indexOf_present:
  "x \<in> set xs \<Longrightarrow> 0 \<le> indexOf xs x \<and> nat (indexOf xs x) < length xs \<and> xs ! nat (indexOf xs x) = x"
  using takeWhile_neq_stops[of x xs] by (simp add: indexOf_takeWhile)

lemma dep_chain_snoc:
  "dep_chain m p \<Longrightarrow> (p \<noteq> [] \<longrightarrow> x \<in> set (deps_in m (last p))) \<Longrightarrow> dep_chain m (p @ [x])"
  unfolding dep_chain_def
proof (intro allI impI)
  fix i
  assume c: "\<forall>i. Suc i < length p \<longrightarrow> p ! Suc i \<in> set (deps_in m (p ! i))"
    and l: "p \<noteq> [] \<longrightarrow> x \<in> set (deps_in m (last p))"
    and i: "Suc i < length (p @ [x])"
  show "(p @ [x]) ! Suc i \<in> set (deps_in m ((p @ [x]) ! i))"
  proof (cases "Suc i < length p")
    case True
    then show ?thesis using c by (simp add: nth_append)
  next
    case False
    then have "Suc i = length p" using i by simp
    then have ne: "p \<noteq> []" and "(p @ [x]) ! Suc i = x" "(p @ [x]) ! i = p ! i"
      by (auto simp: nth_append)
    moreover have "last p = p ! i"
      using ne \<open>Suc i = length p\<close> by (metis last_conv_nth diff_Suc_1)
    ultimately have "p \<noteq> []" "last p = p ! i" "(p @ [x]) ! Suc i = x" "(p @ [x]) ! i = p ! i"
      by simp_all
    then show ?thesis using l by simp
  qed
qed

lemma dfs_sound:
  fixes seederMap :: "(string, ('c, 'o, 'e) Seeder) js_map"
  shows "dep_chain seederMap (path st) \<Longrightarrow> distinct (path st) \<Longrightarrow>
         (path st \<noteq> [] \<longrightarrow> nm \<in> set (deps_in seederMap (last (path st)))) \<Longrightarrow>
         (if fst (dfs seederMap nm st) then closes_cycle seederMap (snd (dfs seederMap nm st))
          else path (snd (dfs seederMap nm st)) = path st)"
    and "dep_chain seederMap (path st) \<Longrightarrow> distinct (path st) \<Longrightarrow> path st \<noteq> [] \<Longrightarrow>
         set deps \<subseteq> set (deps_in seederMap (last (path st))) \<Longrightarrow>
         (if fst (dfs_each seederMap deps st) then closes_cycle seederMap (snd (dfs_each seederMap deps st))
          else path (snd (dfs_each seederMap deps st)) = path st)"
proof (induction seederMap nm st and seederMap deps st rule: dfs_dfs_each.induct)
  case (1 seederMap nm st)
  show ?case
  proof (cases "nm \<in> set (path st)")
    case True
    then have ne: "indexOf (path st) nm \<noteq> - 1" by (simp add: indexOf_absent)
    have "closes_cycle seederMap (st\<lparr>cycleStart := indexOf (path st) nm\<rparr>)"
      using indexOf_present[OF True] "1.prems" True
      by (auto simp: closes_cycle_def)
    then show ?thesis
      using ne by (simp add: dfs.simps[of seederMap nm st] Let_def)
  next
    case False
    then have eq: "indexOf (path st) nm = - 1" by (simp add: indexOf_absent)
    show ?thesis
    proof (cases "set_has (visited st) nm")
      case True
      then show ?thesis using eq by (simp add: dfs.simps[of seederMap nm st] Let_def)
    next
      case nv: False
      define st1 where "st1 = st\<lparr>visited := set_add (visited st) nm, path := path st @ [nm]\<rparr>"
      have c1: "dep_chain seederMap (path st1)" and d1: "distinct (path st1)"
        and n1: "path st1 \<noteq> []" and l1: "last (path st1) = nm"
        using "1.prems" False by (simp_all add: st1_def dep_chain_snoc)
      show ?thesis
      proof (cases "map_get seederMap nm")
        case None
        then show ?thesis
          using eq nv by (simp add: dfs.simps[of seederMap nm st] Let_def)
      next
        case (Some seeder)
        let ?r = "dfs_each seederMap (dependsOn seeder) st1"
        have sub: "set (dependsOn seeder) \<subseteq> set (deps_in seederMap (last (path st1)))"
          using Some l1 by (simp add: deps_in_def)
        have ih: "if fst ?r then closes_cycle seederMap (snd ?r) else path (snd ?r) = path st1"
          using "1.IH"[OF refl _ nv st1_def Some c1 d1 n1 sub] eq by simp
        have unfold: "dfs seederMap nm st
                 = (if fst ?r then ?r else (False, (snd ?r)\<lparr>path := butlast (path (snd ?r))\<rparr>))"
          using eq nv Some by (simp add: dfs.simps[of seederMap nm st] Let_def st1_def)
        show ?thesis
        proof (cases "fst ?r")
          case True
          then show ?thesis using ih unfold by simp
        next
          case False
          then have "path (snd ?r) = path st @ [nm]" using ih by (simp add: st1_def)
          then show ?thesis using False unfold by simp
        qed
      qed
    qed
  qed
next
  case (2 seederMap st)
  then show ?case by simp
next
  case (3 seederMap dep deps st)
  let ?r = "dfs seederMap dep st"
  have first: "if fst ?r then closes_cycle seederMap (snd ?r) else path (snd ?r) = path st"
    using "3.IH"(1) "3.prems" by simp
  show ?case
  proof (cases "fst ?r")
    case True
    then show ?thesis using first by (simp add: Let_def)
  next
    case False
    then have p: "path (snd ?r) = path st" using first by simp
    have "if fst (dfs_each seederMap deps (snd ?r))
          then closes_cycle seederMap (snd (dfs_each seederMap deps (snd ?r)))
          else path (snd (dfs_each seederMap deps (snd ?r))) = path (snd ?r)"
      using "3.IH"(2)[OF refl False] "3.prems" p by simp
    then show ?thesis using False p by (simp add: Let_def)
  qed
qed

lemma reaches_cycle_step:
  assumes "reaches_cycle m v"
  shows "\<exists>d \<in> set (deps_in m v). reaches_cycle m d"
proof -
  obtain c where vc: "(v, c) \<in> (dep_step m)\<^sup>*" and cc: "(c, c) \<in> (dep_step m)\<^sup>+"
    using assms unfolding reaches_cycle_def by blast
  show ?thesis
  proof (cases "v = c")
    case True
    then obtain d where "(v, d) \<in> dep_step m" "(d, c) \<in> (dep_step m)\<^sup>*"
      using cc by (meson tranclD)
    then show ?thesis
      using cc unfolding reaches_cycle_def dep_step_def by auto
  next
    case False
    then obtain d where "(v, d) \<in> dep_step m" "(d, c) \<in> (dep_step m)\<^sup>*"
      using vc by (meson converse_rtranclE)
    then show ?thesis
      using cc unfolding reaches_cycle_def dep_step_def by auto
  qed
qed

lemma dfs_complete:
  fixes seederMap :: "(string, ('c, 'o, 'e) Seeder) js_map"
  shows "settled seederMap st \<Longrightarrow> \<not> fst (dfs seederMap nm st) \<Longrightarrow>
           settled seederMap (snd (dfs seederMap nm st))
           \<and> path (snd (dfs seederMap nm st)) = path st
           \<and> set (visited st) \<subseteq> set (visited (snd (dfs seederMap nm st)))
           \<and> nm \<in> set (visited (snd (dfs seederMap nm st)))
           \<and> nm \<notin> set (path st)"
    and "settled seederMap st \<Longrightarrow> \<not> fst (dfs_each seederMap deps st) \<Longrightarrow>
           settled seederMap (snd (dfs_each seederMap deps st))
           \<and> path (snd (dfs_each seederMap deps st)) = path st
           \<and> set (visited st) \<subseteq> set (visited (snd (dfs_each seederMap deps st)))
           \<and> set deps \<subseteq> set (visited (snd (dfs_each seederMap deps st)))
           \<and> set deps \<inter> set (path st) = {}"
proof (induction seederMap nm st and seederMap deps st rule: dfs_dfs_each.induct)
  case (1 seederMap nm st)
  have eq: "indexOf (path st) nm = - 1"
    using "1.prems"(2) by (auto simp: dfs.simps[of seederMap nm st] Let_def split: if_splits)
  then have np: "nm \<notin> set (path st)" by (simp add: indexOf_absent)
  show ?case
  proof (cases "set_has (visited st) nm")
    case True
    then show ?thesis
      using eq np "1.prems"(1) by (simp add: dfs.simps[of seederMap nm st] Let_def set_has_def)
  next
    case nv: False
    define st1 where "st1 = st\<lparr>visited := set_add (visited st) nm, path := path st @ [nm]\<rparr>"
    have v1: "set (visited st1) = insert nm (set (visited st))"
      and p1: "path st1 = path st @ [nm]"
      by (auto simp: st1_def set_add_def)
    have s1: "settled seederMap st1"
      using "1.prems"(1) unfolding settled_def v1 p1 by auto
    show ?thesis
    proof (cases "map_get seederMap nm")
      case None
      have res: "dfs seederMap nm st = (False, st1\<lparr>path := butlast (path st1)\<rparr>)"
        using eq nv None by (simp add: dfs.simps[of seederMap nm st] Let_def st1_def)
      have "\<not> reaches_cycle seederMap nm"
        using reaches_cycle_step[of seederMap nm] None by (auto simp: deps_in_def)
      then have "settled seederMap (st1\<lparr>path := butlast (path st1)\<rparr>)"
        using "1.prems"(1) unfolding settled_def by (auto simp: v1 p1)
      then show ?thesis
        using np v1 p1 by (auto simp: res)
    next
      case (Some seeder)
      let ?r = "dfs_each seederMap (dependsOn seeder) st1"
      have res: "dfs seederMap nm st
                 = (if fst ?r then ?r else (False, (snd ?r)\<lparr>path := butlast (path (snd ?r))\<rparr>))"
        using eq nv Some by (simp add: dfs.simps[of seederMap nm st] Let_def st1_def)
      then have nf: "\<not> fst ?r" using "1.prems"(2) by (auto split: if_splits)
      have ih: "settled seederMap (snd ?r) \<and> path (snd ?r) = path st1
           \<and> set (visited st1) \<subseteq> set (visited (snd ?r))
           \<and> set (dependsOn seeder) \<subseteq> set (visited (snd ?r))
           \<and> set (dependsOn seeder) \<inter> set (path st1) = {}"
        using "1.IH"[OF refl _ nv st1_def Some s1 nf] eq by simp
      have "\<not> reaches_cycle seederMap d" if "d \<in> set (dependsOn seeder)" for d
      proof -
        have "d \<in> set (visited (snd ?r))" "d \<notin> set (path (snd ?r))"
          using ih that by auto
        then show ?thesis using ih unfolding settled_def by blast
      qed
      then have nrc: "\<not> reaches_cycle seederMap nm"
        using reaches_cycle_step[of seederMap nm] Some by (auto simp: deps_in_def)
      have "settled seederMap ((snd ?r)\<lparr>path := butlast (path (snd ?r))\<rparr>)"
        using ih nrc unfolding settled_def by (auto simp: p1)
      then show ?thesis
        using nf ih np v1 p1 by (auto simp: res)
    qed
  qed
next
  case (2 seederMap st)
  then show ?case by simp
next
  case (3 seederMap dep deps st)
  let ?r = "dfs seederMap dep st"
  have nf1: "\<not> fst ?r" and nf2: "\<not> fst (dfs_each seederMap deps (snd ?r))"
    using "3.prems"(2) by (auto simp: Let_def split: if_splits)
  have a: "settled seederMap (snd ?r) \<and> path (snd ?r) = path st
           \<and> set (visited st) \<subseteq> set (visited (snd ?r))
           \<and> dep \<in> set (visited (snd ?r)) \<and> dep \<notin> set (path st)"
    using "3.IH"(1)[OF "3.prems"(1) nf1] .
  have b: "settled seederMap (snd (dfs_each seederMap deps (snd ?r)))
           \<and> path (snd (dfs_each seederMap deps (snd ?r))) = path (snd ?r)
           \<and> set (visited (snd ?r)) \<subseteq> set (visited (snd (dfs_each seederMap deps (snd ?r))))
           \<and> set deps \<subseteq> set (visited (snd (dfs_each seederMap deps (snd ?r))))
           \<and> set deps \<inter> set (path (snd ?r)) = {}"
    using "3.IH"(2)[OF refl nf1 _ nf2] a by simp
  show ?case
    using a b nf1 by (auto simp: Let_def)
qed

subsection \<open>Cyclic registries\<close>

lemma ranked_acyclic:
  fixes f :: "'a \<Rightarrow> int"
  assumes "\<And>a b. (a, b) \<in> r \<Longrightarrow> f a < f b"
  shows "acyclic r"
proof -
  have "f a < f b" if "(a, b) \<in> r\<^sup>+" for a b
    using that
  proof (induction rule: trancl.induct)
    case (r_into_trancl a b)
    then show ?case by (rule assms)
  next
    case (trancl_into_trancl a b c)
    then show ?case using assms[of b c] by simp
  qed
  then have "(x, x) \<notin> r\<^sup>+" for x by force
  then show ?thesis by (simp add: acyclic_def)
qed

lemma deps_in_edges:
  fixes seeders :: "('c, 'o, 'e) Seeder list"
  assumes dn: "distinct (map name seeders)"
  shows "d \<in> set (deps_in (build_seederMap seeders) u) \<longleftrightarrow> (d, u) \<in> set (dependency_edges seeders)"
proof (cases "map_get (build_seederMap seeders) u")
  case None
  have "\<not> (s \<in> set seeders \<and> name s = u)" for s
    using seederMap_lookup[OF dn, of u s] None by simp
  then have "(d, u) \<notin> set (dependency_edges seeders)"
    unfolding dependency_edge_iff by blast
  then show ?thesis
    using None by (simp add: deps_in_def)
next
  case (Some s)
  have one: "s' = s" if "s' \<in> set seeders \<and> name s' = u" for s'
    using seederMap_lookup[OF dn, of u s'] that Some by simp
  have here: "s \<in> set seeders \<and> name s = u"
    using seederMap_lookup[OF dn, of u s] Some by simp
  have "(d, u) \<in> set (dependency_edges seeders) \<longleftrightarrow> d \<in> set (dependsOn s)"
    unfolding dependency_edge_iff using one here by blast
  then show ?thesis
    using Some by (simp add: deps_in_def)
qed

lemma dep_step_edges:
  fixes seeders :: "('c, 'o, 'e) Seeder list"
  assumes dn: "distinct (map name seeders)"
  shows "dep_step (build_seederMap seeders) = (set (dependency_edges seeders))\<inverse>"
proof (rule set_eqI)
  fix p :: "string \<times> string"
  obtain u d where p: "p = (u, d)" by (cases p)
  show "p \<in> dep_step (build_seederMap seeders) \<longleftrightarrow> p \<in> (set (dependency_edges seeders))\<inverse>"
    unfolding p using deps_in_edges[OF dn, of d u] by (simp add: dep_step_def)
qed

lemma complete_order_acyclic:
  fixes seeders :: "('c, 'o, 'e) Seeder list"
  assumes dn: "distinct (map name seeders)"
      and full: "set (kahn_order seeders) = name ` set seeders"
  shows "acyclic (set (dependency_edges seeders))"
proof (rule ranked_acyclic[where f = "indexOf (kahn_order seeders)"])
  fix d u assume "(d, u) \<in> set (dependency_edges seeders)"
  then obtain s where s: "s \<in> set seeders" "name s = u" "d \<in> set (dependsOn s)"
    by (auto simp: dependency_edge_iff)
  then have in_r: "name s \<in> set (kahn_order seeders)" using full by blast
  then have tw: "d \<in> set (takeWhile (\<lambda>x. x \<noteq> name s) (kahn_order seeders))"
    using kahn_order_closed(2)[OF dn s(1)] s(3) by blast
  show "indexOf (kahn_order seeders) d < indexOf (kahn_order seeders) u"
    using indexOf_earlier[OF tw in_r] s(2) by simp
qed

lemma cyclic_order_short:
  fixes seeders :: "('c, 'o, 'e) Seeder list"
  assumes dn: "distinct (map name seeders)"
      and cyc: "\<not> acyclic (set (dependency_edges seeders))"
  shows "length (kahn_order seeders) \<noteq> length seeders"
proof
  let ?r = "kahn_order seeders"
  assume l: "length ?r = length seeders"
  have d: "distinct ?r" and sub: "set ?r \<subseteq> name ` set seeders"
    using kahn_order_distinct_within[of seeders] by simp_all
  have "card (set (map name seeders)) = length (map name seeders)"
    using dn by (rule distinct_card)
  then have "card (name ` set seeders) = length seeders" by simp
  moreover have "card (set ?r) = length ?r" using d by (rule distinct_card)
  ultimately have "card (set ?r) = card (name ` set seeders)" using l by simp
  then have "set ?r = name ` set seeders"
    using sub by (simp add: card_subset_eq)
  then show False
    using complete_order_acyclic[OF dn] cyc by blast
qed

text \<open>Every unit that is left over when the queue has run empty leads into a cycle.\<close>

lemma trapped_reaches_cycle:
  assumes fin: "finite S" and x: "x \<in> S"
      and succ: "\<forall>u \<in> S. \<exists>d \<in> S. (u, d) \<in> dep_step m"
  shows "reaches_cycle m x"
proof -
  define T where "T = {v \<in> S. (x, v) \<in> (dep_step m)\<^sup>*}"
  define R where "R = dep_step m \<inter> (T \<times> T)"
  have xT: "x \<in> T" using x by (simp add: T_def)
  have "T \<subseteq> S" by (auto simp: T_def)
  then have "finite T" using fin by (rule finite_subset)
  then have "finite (T \<times> T)" by simp
  then have finR: "finite (R\<inverse>)" by (simp add: R_def)
  have src: "\<forall>u \<in> T. \<exists>d \<in> T. (d, u) \<in> R\<inverse>"
  proof
    fix u assume uT: "u \<in> T"
    then have "u \<in> S" and xu: "(x, u) \<in> (dep_step m)\<^sup>*" by (simp_all add: T_def)
    then obtain d where d: "d \<in> S" "(u, d) \<in> dep_step m"
      using succ by blast
    have "(x, d) \<in> (dep_step m)\<^sup>*"
      using xu d(2) by (rule rtrancl_into_rtrancl)
    then have "d \<in> T" using d(1) by (simp add: T_def)
    then have "(d, u) \<in> R\<inverse>" using d(2) uT by (simp add: R_def)
    with \<open>d \<in> T\<close> show "\<exists>d \<in> T. (d, u) \<in> R\<inverse>" by (rule bexI[rotated])
  qed
  have "\<not> acyclic (R\<inverse>)"
    by (rule no_source_not_acyclic[OF finR xT src])
  then have "\<not> acyclic R" by simp
  then obtain c where cc: "(c, c) \<in> R\<^sup>+" unfolding acyclic_def by blast
  then obtain y where "(c, y) \<in> R" by (meson tranclD)
  then have "c \<in> T" by (simp add: R_def)
  then have xc: "(x, c) \<in> (dep_step m)\<^sup>*" by (simp add: T_def)
  have "R \<subseteq> dep_step m" by (simp add: R_def)
  then have "(c, c) \<in> (dep_step m)\<^sup>+"
    using cc by (rule trancl_mono[rotated])
  then show ?thesis unfolding reaches_cycle_def using xc by blast
qed

lemma remaining_trapped:
  fixes seeders :: "('c, 'o, 'e) Seeder list"
  assumes dn: "distinct (map name seeders)"
      and ex: "\<forall>s \<in> set seeders. set (dependsOn s) \<subseteq> name ` set seeders"
      and u: "u \<in> name ` set seeders - set (kahn_order seeders)"
  shows "\<exists>d \<in> name ` set seeders - set (kahn_order seeders).
           (u, d) \<in> dep_step (build_seederMap seeders)"
proof -
  have "u \<in> name ` set seeders" using u by simp
  then obtain s where s: "s \<in> set seeders" "name s = u" by blast
  then have "\<not> set (dependsOn s) \<subseteq> set (kahn_order seeders)"
    using kahn_order_closed(1)[OF dn s(1)] u by simp
  then obtain d where d: "d \<in> set (dependsOn s)" "d \<notin> set (kahn_order seeders)" by auto
  then have "d \<in> name ` set seeders - set (kahn_order seeders)" using ex s(1) by auto
  moreover have "(d, u) \<in> set (dependency_edges seeders)"
    using s d(1) by (auto simp: dependency_edge_iff)
  ultimately show ?thesis
    unfolding dep_step_edges[OF dn] by (intro bexI[of _ d]) simp_all
qed

lemma closes_cycle_drop:
  assumes cc: "closes_cycle m st"
  shows "drop (nat (cycleStart st)) (path st) \<noteq> []"
    and "distinct (drop (nat (cycleStart st)) (path st))"
    and "\<forall>i < length (drop (nat (cycleStart st)) (path st)).
           drop (nat (cycleStart st)) (path st)
             ! (Suc i mod length (drop (nat (cycleStart st)) (path st)))
           \<in> set (deps_in m (drop (nat (cycleStart st)) (path st) ! i))"
proof -
  let ?k = "nat (cycleStart st)" and ?p = "path st"
  let ?c = "drop ?k ?p"
  have k: "?k < length ?p" and chain: "dep_chain m ?p" and d: "distinct ?p"
    and close: "?p ! ?k \<in> set (deps_in m (last ?p))"
    using cc unfolding closes_cycle_def by simp_all
  show "?c \<noteq> []" using k by simp
  show "distinct ?c" using d by simp
  show "\<forall>i < length ?c. ?c ! (Suc i mod length ?c) \<in> set (deps_in m (?c ! i))"
  proof (intro allI impI)
    fix i assume i: "i < length ?c"
    then have ci: "?c ! i = ?p ! (?k + i)" by simp
    show "?c ! (Suc i mod length ?c) \<in> set (deps_in m (?c ! i))"
    proof (cases "Suc i < length ?c")
      case True
      then have "?c ! (Suc i mod length ?c) = ?p ! Suc (?k + i)" by simp
      moreover have "Suc (?k + i) < length ?p" using True by simp
      ultimately show ?thesis
        using chain ci unfolding dep_chain_def by simp
    next
      case False
      then have e: "Suc i = length ?c" using i by simp
      then have first: "?c ! (Suc i mod length ?c) = ?p ! ?k" using k by simp
      have "?k + i = length ?p - 1" using e k by simp
      moreover have "?p \<noteq> []" using k by auto
      then have "last ?p = ?p ! (length ?p - 1)" by (rule last_conv_nth)
      ultimately have "?c ! i = last ?p"
        using ci by simp
      then show ?thesis using close first by simp
    qed
  qed
qed

text \<open>
  C5.  If the names of the registry are unique, every dependency name is the name of a unit,
  and the dependency graph has a cycle (a unit that lists itself is one), then
  \<open>resolveDependencyOrder\<close> fails with \<open>CircularDependencyError\<close>, and the list it
  carries is a cycle of the graph: it is not empty, it has no repetition, every member lists
  the next member as a dependency, and the last member lists the first.  So a unit that only
  depends on the cycle, or has nothing to do with it, is not reported.
\<close>

theorem cyclic_registry_reports_cycle:
  fixes seeders :: "('c, 'o, 'e) Seeder list"
  assumes dn: "distinct (map name seeders)"
      and ex: "\<forall>s \<in> set seeders. set (dependsOn s) \<subseteq> name ` set seeders"
      and cyc: "\<not> acyclic (set (dependency_edges seeders))"
  shows "\<exists>cycle. resolveDependencyOrder seeders = Inl (CircularDependencyError cycle)
           \<and> cycle \<noteq> [] \<and> distinct cycle
           \<and> (\<forall>i < length cycle.
                 (cycle ! (Suc i mod length cycle), cycle ! i) \<in> set (dependency_edges seeders))"
proof -
  let ?m = "build_seederMap seeders"
  let ?r = "kahn_order seeders"
  let ?rem = "remaining_seeders seeders ?r"
  let ?S = "name ` set seeders - set ?r"
  let ?st0 = "\<lparr>visited = [], path = [], cycleStart = - 1\<rparr>"
  have short: "length ?r \<noteq> length seeders"
    by (rule cyclic_order_short[OF dn cyc])
  have v: "validate_all ?m seeders = None"
    using ex by (auto simp: validate_all_None map_has_seederMap)
  have res: "resolveDependencyOrder seeders = Inl (CircularDependencyError (findCycle ?rem ?m))"
    using v short by (simp add: resolveDependencyOrder_def Let_def)
  have "set ?r \<noteq> name ` set seeders"
  proof
    assume full: "set ?r = name ` set seeders"
    have "acyclic (set (dependency_edges seeders))"
      by (rule complete_order_acyclic[OF dn full])
    then show False using cyc by simp
  qed
  then have "?S \<noteq> {}"
    using kahn_order_distinct_within[of seeders] by blast
  then have "?rem \<noteq> []"
    by (auto simp: remaining_seeders_def filter_empty_conv)
  then obtain s0 rest where rem: "?rem = s0 # rest" by (cases ?rem) auto
  then have "s0 \<in> set ?rem" by simp
  then have s0: "name s0 \<in> ?S" by (auto simp: remaining_seeders_def)
  have fin: "finite ?S" by simp
  have trap: "\<forall>u \<in> ?S. \<exists>d \<in> ?S. (u, d) \<in> dep_step ?m"
    using remaining_trapped[OF dn ex] by blast
  have rc: "reaches_cycle ?m (name s0)"
    by (rule trapped_reaches_cycle[OF fin s0 trap])
  let ?d = "dfs ?m (name s0) ?st0"
  have found: "fst ?d"
  proof (rule ccontr)
    assume nf: "\<not> fst ?d"
    have "settled ?m ?st0" by (simp add: settled_def)
    from dfs_complete(1)[OF this nf]
    have "settled ?m (snd ?d)" "path (snd ?d) = []" "name s0 \<in> set (visited (snd ?d))"
      by simp_all
    then have "\<not> reaches_cycle ?m (name s0)"
      unfolding settled_def by auto
    then show False using rc by simp
  qed
  have "if fst ?d then closes_cycle ?m (snd ?d) else path (snd ?d) = path ?st0"
    by (rule dfs_sound(1)) (simp_all add: dep_chain_def)
  then have cc: "closes_cycle ?m (snd ?d)" using found by simp
  then have nonneg: "0 \<le> cycleStart (snd ?d)" by (simp add: closes_cycle_def)
  let ?cycle = "drop (nat (cycleStart (snd ?d))) (path (snd ?d))"
  have "find_from ?m ?rem ?st0 = Some ?cycle"
    using found nonneg unfolding rem by (simp add: Let_def)
  then have fc: "findCycle ?rem ?m = ?cycle"
    by (simp add: findCycle_def)
  have edges: "\<forall>i < length ?cycle.
                 (?cycle ! (Suc i mod length ?cycle), ?cycle ! i) \<in> set (dependency_edges seeders)"
    using closes_cycle_drop(3)[OF cc] deps_in_edges[OF dn] by simp
  show ?thesis
    using res fc closes_cycle_drop(1,2)[OF cc] edges by (intro exI[of _ ?cycle]) simp
qed

theorem cyclic_registry_reports_cycle_witness:
  "distinct (map name downstream_registry)
   \<and> set (concat (map dependsOn downstream_registry)) \<subseteq> name ` set downstream_registry
   \<and> \<not> acyclic (set (dependency_edges downstream_registry))
   \<and> resolveDependencyOrder downstream_registry = Inl (CircularDependencyError [''A'', ''B''])
   \<and> ([''A'', ''B''] ! (Suc 1 mod 2), [''A'', ''B''] ! 1) \<in> set (dependency_edges downstream_registry)
   \<and> resolveDependencyOrder self_registry = Inl (CircularDependencyError [''A''])"
proof -
  have h1: "distinct (map name downstream_registry)"
    by (simp add: downstream_registry_def)
  have h2': "set (concat (map dependsOn downstream_registry)) \<subseteq> name ` set downstream_registry"
    by (simp add: downstream_registry_def)
  then have h2: "\<forall>s \<in> set downstream_registry.
                   set (dependsOn s) \<subseteq> name ` set downstream_registry"
    by auto
  have h3: "\<not> acyclic (set (dependency_edges downstream_registry))"
  proof -
    have "(''A'', ''B'') \<in> set (dependency_edges downstream_registry)"
      and "(''B'', ''A'') \<in> set (dependency_edges downstream_registry)"
      by (simp_all add: downstream_registry_def dependency_edges_def)
    then have "(''A'', ''A'') \<in> (set (dependency_edges downstream_registry))\<^sup>+"
      by (meson trancl.simps)
    then show ?thesis by (auto simp: acyclic_def)
  qed
  have r: "resolveDependencyOrder downstream_registry = Inl (CircularDependencyError [''A'', ''B''])"
    by code_simp
  have self: "resolveDependencyOrder self_registry = Inl (CircularDependencyError [''A''])"
    by code_simp
  from cyclic_registry_reports_cycle[OF h1 h2 h3]
  obtain cycle where c: "resolveDependencyOrder downstream_registry
                           = Inl (CircularDependencyError cycle)"
    and e: "\<forall>i < length cycle.
              (cycle ! (Suc i mod length cycle), cycle ! i) \<in> set (dependency_edges downstream_registry)"
    by blast
  have cycle: "cycle = [''A'', ''B'']" using c r by simp
  have "([''A'', ''B''] ! (Suc 1 mod 2), [''A'', ''B''] ! 1) \<in> set (dependency_edges downstream_registry)"
    using e[rule_format, of 1] unfolding cycle by simp
  then show ?thesis
    using h1 h2' h3 r self by simp
qed

subsection \<open>The code against the specification's algorithm\<close>

lemma spec_dependents_eq: "spec_dependents units d = dependents_of units d"
proof -
  have "concat (map (\<lambda>x. if x = d then [n] else []) xs) = map (\<lambda>_. n) (filter (\<lambda>x. x = d) xs)"
    for n :: string and xs
    by (induction xs) auto
  then show ?thesis
    by (simp add: spec_dependents_def dependents_of_def)
qed

lemma fold_decrement_refines:
  assumes "\<forall>u. degree_of m u = deg u"
  shows "(\<forall>u. degree_of (fst (fold reduce_degree ds (m, q))) u
               = fst (fold spec_decrement ds (deg, q)) u)
         \<and> snd (fold reduce_degree ds (m, q)) = snd (fold spec_decrement ds (deg, q))"
  using assms
proof (induction ds arbitrary: m deg q)
  case Nil
  then show ?case by simp
next
  case (Cons d ds)
  let ?c = "reduce_degree d (m, q)" and ?s = "spec_decrement d (deg, q)"
  have a: "\<forall>u. degree_of (fst ?c) u = fst ?s u"
    using Cons.prems by (simp add: reduce_degree_fst spec_decrement_def)
  have b: "snd ?c = snd ?s"
    using Cons.prems by (simp add: reduce_degree_snd spec_decrement_def)
  show ?case
    using Cons.IH[of "fst ?c" "fst ?s" "snd ?c"] a b
    by (simp add: prod.expand[symmetric, of ?c] del: prod.collapse) (metis prod.collapse)
qed

lemma process_queue_refines:
  fixes units :: "('c, 'o, 'e) Seeder list"
  assumes "\<forall>u. degree_of m u = deg u" and "set q \<subseteq> name ` set units"
  shows "process_queue (snd (build_graph units)) m q r = spec_loop units deg q r"
  using assms
proof (induction "snd (build_graph units)" m q r arbitrary: deg rule: process_queue.induct)
  case (1 inDegree result)
  then show ?case by simp
next
  case (2 inDegree current queue result)
  have cN: "current \<in> name ` set units" using "2.prems"(2) by simp
  define ds where "ds = (case map_get (snd (build_graph units)) current of Some ds \<Rightarrow> ds | None \<Rightarrow> [])"
  have ds: "ds = spec_dependents units current"
    using cN by (simp add: ds_def dependents_get spec_dependents_eq)
  define st where "st = fold reduce_degree ds (inDegree, queue)"
  define st' where "st' = fold spec_decrement ds (deg, queue)"
  have sim: "(\<forall>u. degree_of (fst st) u = fst st' u) \<and> snd st = snd st'"
    unfolding st_def st'_def by (rule fold_decrement_refines[OF "2.prems"(1)])
  obtain new where "snd st = queue @ new"
    and "\<And>u. u \<in> set new \<longleftrightarrow> u \<in> set ds \<and> 1 \<le> degree_of inDegree u
                          \<and> degree_of inDegree u \<le> int (count_list ds u)"
    using fold_reduce_degree_queue[of ds "(inDegree, queue)"] unfolding st_def by auto
  then have sub: "set (snd st) \<subseteq> name ` set units"
    using "2.prems"(2) set_spec_dependents[of units current] unfolding ds by auto
  have "process_queue (snd (build_graph units)) (fst st) (snd st) (result @ [current])
          = spec_loop units (fst st') (snd st) (result @ [current])"
    using "2.hyps"[OF ds_def st_def _ sub] sim by simp
  then show ?case
    using sim by (simp add: Let_def ds_def[symmetric] st_def[symmetric] ds[symmetric] st'_def[symmetric])
qed

lemma find_unique_name:
  "distinct (map name units) \<Longrightarrow> s \<in> set units \<Longrightarrow> find (\<lambda>s'. name s' = name s) units = Some s"
proof (induction units)
  case Nil
  then show ?case by simp
next
  case (Cons x xs)
  show ?case
  proof (cases "s = x")
    case True
    then show ?thesis by simp
  next
    case False
    then have "s \<in> set xs" using Cons.prems(2) by simp
    moreover have "name x \<notin> name ` set xs" using Cons.prems(1) by simp
    ultimately have "name x \<noteq> name s" by (metis imageI)
    then show ?thesis using Cons \<open>s \<in> set xs\<close> by simp
  qed
qed

lemma initial_degrees_refine:
  fixes units :: "('c, 'o, 'e) Seeder list"
  assumes dn: "distinct (map name units)"
  shows "degree_of (fst (build_graph units)) u = spec_inDegree units u"
proof (cases "u \<in> name ` set units")
  case True
  then obtain s where s: "s \<in> set units" "name s = u" by blast
  show ?thesis
    using inDegree_get[OF dn s(1)] find_unique_name[OF dn s(1)] s(2)
    by (simp add: degree_of_def spec_inDegree_def)
next
  case False
  then have "map_get (fst (build_graph units)) u = None"
    by (simp add: map_get_None_iff inDegree_keys)
  moreover have "find (\<lambda>s. name s = u) units = None"
    using False by (auto simp: find_None_iff)
  ultimately show ?thesis
    by (simp add: degree_of_def spec_inDegree_def)
qed

lemma inDegree_entries:
  fixes units :: "('c, 'o, 'e) Seeder list"
  assumes dn: "distinct (map name units)"
  shows "fst (build_graph units) = map (\<lambda>s. (name s, int (length (dependsOn s)))) units"
proof (rule nth_equalityI)
  let ?m = "fst (build_graph units)"
  have keys: "map fst ?m = map name units" by (rule inDegree_key_order[OF dn])
  then have len: "length ?m = length units" by (metis length_map)
  then show "length ?m = length (map (\<lambda>s. (name s, int (length (dependsOn s)))) units)" by simp
  fix i assume i: "i < length ?m"
  then have iu: "i < length units" using len by simp
  have k: "fst (?m ! i) = name (units ! i)"
    using keys i iu by (metis nth_map)
  have "?m ! i \<in> set ?m" using i by simp
  then have "(name (units ! i), snd (?m ! i)) \<in> set ?m"
    using k by (metis prod.collapse)
  then have "map_get ?m (name (units ! i)) = Some (snd (?m ! i))"
    by (rule map_get_distinct_mem[OF inDegree_distinct])
  moreover have "map_get ?m (name (units ! i)) = Some (int (length (dependsOn (units ! i))))"
    using inDegree_get[OF dn, of "units ! i"] iu by simp
  ultimately have "snd (?m ! i) = int (length (dependsOn (units ! i)))" by simp
  then show "?m ! i = map (\<lambda>s. (name s, int (length (dependsOn s)))) units ! i"
    using k iu by (simp add: prod_eq_iff)
qed

lemma initial_queue_refines:
  fixes units :: "('c, 'o, 'e) Seeder list"
  assumes dn: "distinct (map name units)"
  shows "initial_queue (fst (build_graph units)) = spec_ready units"
proof -
  have "initial_queue (map (\<lambda>s. (name s, int (length (dependsOn s)))) xs) = spec_ready xs"
    for xs :: "('c, 'o, 'e) Seeder list"
    by (induction xs) (simp_all add: initial_queue_def spec_ready_def)
  then show ?thesis by (simp add: inDegree_entries[OF dn])
qed

lemma kahn_order_refines:
  fixes units :: "('c, 'o, 'e) Seeder list"
  assumes dn: "distinct (map name units)"
  shows "kahn_order units = spec_kahn_order units"
proof -
  have "set (initial_queue (fst (build_graph units))) \<subseteq> name ` set units"
    using initial_queue_keys[of "fst (build_graph units)"] by (simp add: inDegree_keys)
  then have "process_queue (snd (build_graph units)) (fst (build_graph units))
               (initial_queue (fst (build_graph units))) []
             = spec_loop units (spec_inDegree units) (initial_queue (fst (build_graph units))) []"
    by (intro process_queue_refines) (simp_all add: initial_degrees_refine[OF dn])
  then show ?thesis
    by (simp add: kahn_order_def spec_kahn_order_def Let_def initial_queue_refines[OF dn])
qed

text \<open>
  C7.  Every order that \<open>resolveDependencyOrder\<close> returns is the order that the
  specification's algorithm computes on the same registry: in-degree of a unit the length of
  its own dependency list, queue seeded with the units of in-degree zero in registry order,
  head removed and newly ready dependents appended.  In the example \<open>zeta\<close> comes before
  \<open>alpha\<close> although both are ready from the start, as in the registry and against the
  alphabet, and \<open>beta\<close>, which was appended first, comes before \<open>omega\<close>.
\<close>

theorem resolved_order_is_kahn:
  fixes seeders :: "('c, 'o, 'e) Seeder list"
  assumes "resolveDependencyOrder seeders = Inr order"
  shows "order = spec_kahn_order seeders"
  using resolved_order(1)[OF assms] kahn_order_refines[OF resolved_names(3)[OF assms]]
  by simp

theorem resolved_order_is_kahn_witness:
  "resolveDependencyOrder tie_registry = Inr [''zeta'', ''alpha'', ''beta'', ''omega'']
   \<and> spec_kahn_order tie_registry = [''zeta'', ''alpha'', ''beta'', ''omega'']"
proof -
  have r: "resolveDependencyOrder tie_registry = Inr [''zeta'', ''alpha'', ''beta'', ''omega'']"
    by code_simp
  from resolved_order_is_kahn[OF r] show ?thesis using r by simp
qed

subsection \<open>Duplicate names\<close>

text \<open>
  C10.  There is a registry with two different definitions of the same name and an acyclic
  dependency graph on which \<open>resolveDependencyOrder\<close> does not return an order: the lookup
  map holds fewer entries than the registry, the array \<open>result\<close> is shorter than the
  registry, no unit is left over for the cycle search, and the function fails with
  \<open>CircularDependencyError\<close> carrying the empty list that the fallback of \<open>findCycle\<close>
  returns.
\<close>

theorem duplicate_names_reported_as_cycle:
  "name (dup_registry ! 1) = name (dup_registry ! 2)
   \<and> dup_registry ! 1 \<noteq> dup_registry ! 2
   \<and> acyclic (set (dependency_edges dup_registry))
   \<and> length (build_seederMap dup_registry) < length dup_registry
   \<and> length (kahn_order dup_registry) < length dup_registry
   \<and> remaining_seeders dup_registry (kahn_order dup_registry) = []
   \<and> find_from (build_seederMap dup_registry) [] \<lparr>visited = [], path = [], cycleStart = - 1\<rparr> = None
   \<and> resolveDependencyOrder dup_registry = Inl (CircularDependencyError [])"
proof -
  have "name (dup_registry ! 1) = name (dup_registry ! 2)"
    and "dup_registry ! 1 \<noteq> dup_registry ! 2"
    by (simp_all add: dup_registry_def)
  moreover have "acyclic (set (dependency_edges dup_registry))"
    by (simp add: dup_registry_def dependency_edges_def acyclic_empty_rel)
  moreover have "length (build_seederMap dup_registry) < length dup_registry"
    by code_simp
  moreover have "length (kahn_order dup_registry) < length dup_registry"
    by code_simp
  moreover have "remaining_seeders dup_registry (kahn_order dup_registry) = []"
    by code_simp
  moreover have "resolveDependencyOrder dup_registry = Inl (CircularDependencyError [])"
    by code_simp
  ultimately show ?thesis by simp
qed

section \<open>Properties of the engine\<close>

subsection \<open>The body of the loop changes one ledger entry\<close>

lemma consistent_pending: "consistent_result (pending_result nm)"
  by (simp add: consistent_result_def pending_result_def)

lemma execute_unit_length:
  "length (run_state.results (snd (execute_unit clock config cof ctx i nm seeder st)))
     = length (run_state.results st)"
  by (simp add: execute_unit_def Let_def split: sum.splits)

lemma execute_unit_other:
  "j \<noteq> i \<Longrightarrow>
   run_state.results (snd (execute_unit clock config cof ctx i nm seeder st)) ! j
     = run_state.results st ! j"
  by (simp add: execute_unit_def Let_def split: sum.splits)

lemma execute_unit_consistent:
  assumes "i < length (run_state.results st)"
      and "run_state.results st ! i = pending_result nm'"
  shows "consistent_result
           (run_state.results (snd (execute_unit clock config cof ctx i nm seeder st)) ! i)"
  using assms
  by (simp add: execute_unit_def Let_def consistent_result_def pending_result_def
           split: sum.splits)

lemma run_unit_length:
  "length (run_state.results (snd (run_unit clock m config cof order ctx i st)))
     = length (run_state.results st)"
  by (simp add: run_unit_def Let_def skip_unit_def execute_unit_length split: option.splits)

lemma run_unit_other:
  "j \<noteq> i \<Longrightarrow>
   run_state.results (snd (run_unit clock m config cof order ctx i st)) ! j = run_state.results st ! j"
  by (simp add: run_unit_def Let_def skip_unit_def execute_unit_other split: option.splits)

lemma skip_unit_consistent:
  assumes "i < length (run_state.results st)"
      and "run_state.results st ! i = pending_result nm'"
  shows "consistent_result (run_state.results (skip_unit i nm st) ! i)"
  using assms by (simp add: skip_unit_def consistent_result_def pending_result_def)

lemma run_unit_consistent:
  assumes "i < length (run_state.results st)"
      and "run_state.results st ! i = pending_result nm'"
  shows "consistent_result (run_state.results (snd (run_unit clock m config cof order ctx i st)) ! i)"
proof -
  have "consistent_result (run_state.results st ! i)"
    using assms(2) by (simp add: consistent_pending)
  then show ?thesis
    using execute_unit_consistent[OF assms, of clock config cof ctx "order ! i"]
      skip_unit_consistent[OF assms, of "order ! i"]
    by (simp add: run_unit_def Let_def split: option.splits)
qed

lemma run_loop_consistent:
  assumes "length (run_state.results st) = length order"
      and "\<forall>j < length order. consistent_result (run_state.results st ! j)"
      and "\<forall>j < length order. i \<le> j \<longrightarrow> run_state.results st ! j = pending_result (order ! j)"
  shows "length (run_state.results (run_loop clock m config cof order ctx i st)) = length order
         \<and> (\<forall>j < length order.
               consistent_result (run_state.results (run_loop clock m config cof order ctx i st) ! j))"
  using assms
proof (induction clock m config cof order ctx i st rule: run_loop.induct)
  case (1 clock m config cof order ctx i st)
  show ?case
  proof (cases "i < length order")
    case False
    then show ?thesis using "1.prems" by (simp add: run_loop.simps[of _ _ _ _ _ _ i])
  next
    case True
    let ?r = "run_unit clock m config cof order ctx i st"
    have len: "length (run_state.results (snd ?r)) = length order"
      using "1.prems"(1) by (simp add: run_unit_length)
    have cons: "\<forall>j < length order. consistent_result (run_state.results (snd ?r) ! j)"
    proof (intro allI impI)
      fix j assume j: "j < length order"
      show "consistent_result (run_state.results (snd ?r) ! j)"
      proof (cases "j = i")
        case True
        then show ?thesis
          using run_unit_consistent[of i st "order ! i" clock m config cof order ctx] "1.prems" j
          by simp
      next
        case False
        then show ?thesis using "1.prems"(2) j by (simp add: run_unit_other)
      qed
    qed
    have pend: "\<forall>j < length order. Suc i \<le> j \<longrightarrow> run_state.results (snd ?r) ! j = pending_result (order ! j)"
      using "1.prems"(3) by (simp add: run_unit_other)
    show ?thesis
    proof (cases "fst ?r")
      case True
      then show ?thesis
        using \<open>i < length order\<close> len cons
        by (simp add: run_loop.simps[of _ _ _ _ _ _ i] Let_def)
    next
      case False
      then show ?thesis
        using \<open>i < length order\<close> "1.IH"[OF \<open>i < length order\<close> refl False len cons pend]
        by (simp add: run_loop.simps[of _ _ _ _ _ _ i] Let_def)
    qed
  qed
qed

lemma runSeedersCore_resolved:
  assumes "resolveDependencyOrder seeders = Inr order"
  shows "runSeedersCore clock seeders config options h =
           (final_report (loop_result clock seeders config options h order),
            call_hook (InternalSeederConfig.onAfterAll config)
              (world (loop_result clock seeders config options h order)))"
  using assms
  by (simp add: runSeedersCore_def loop_result_def continue_flag_def started_world_def Let_def)

lemma runSeedersCore_unresolved:
  assumes "resolveDependencyOrder seeders = Inl err"
  shows "fst (runSeedersCore clock seeders config options h)
           = \<lparr>RunReport.results = [], success = False\<rparr>"
  using assms
  by (simp add: runSeedersCore_def Let_def)

lemma loop_result_consistent:
  "length (run_state.results (loop_result clock seeders config options h order)) = length order
   \<and> (\<forall>j < length order.
         consistent_result (run_state.results (loop_result clock seeders config options h order) ! j))"
  unfolding loop_result_def
  by (rule run_loop_consistent) (simp_all add: initial_state_def consistent_pending)

lemma failing_run_continue:
  "runSeedersCore tick failing_registry plain_config continue_options () =
     (\<lparr>RunReport.results =
         [\<lparr>SeederResult.name = ''A'', status = Failed, durationMs = Some 10, output = None,
           error = Some ''Failed!''\<rparr>,
          \<lparr>SeederResult.name = ''C'', status = Completed, durationMs = Some 10, output = Some 2,
           error = None\<rparr>,
          \<lparr>SeederResult.name = ''B'', status = Skipped, durationMs = None, output = None,
           error = None\<rparr>],
       success = False\<rparr>,
      \<lparr>host = (), console_error = [],
       invocations = [(''A'', [], ()), (''C'', [], ())], now_calls = 4\<rparr>)"
  by code_simp

subsection \<open>The two outcomes of a call\<close>

lemma execute_unit_cases:
  fixes st :: "('o, 'e, 'h) run_state"
  obtains (completed) out d hs where
      "run seeder ctx (build_deps (dependsOn seeder) (outputs st)) = Inr out"
      "\<not> fst (execute_unit clock config cof ctx i nm seeder st)"
      "run_state.results (snd (execute_unit clock config cof ctx i nm seeder st))
         = (run_state.results st)[i := (run_state.results st ! i)
              \<lparr>status := Completed, durationMs := Some d, output := Some out\<rparr>]"
      "invocations (world (snd (execute_unit clock config cof ctx i nm seeder st)))
         = invocations (world st) @ [(nm, build_deps (dependsOn seeder) (outputs st), hs)]"
      "failedSeeders (snd (execute_unit clock config cof ctx i nm seeder st)) = failedSeeders st"
      "outputs (snd (execute_unit clock config cof ctx i nm seeder st)) = map_set (outputs st) nm out"
  | (failed) err d hs where
      "run seeder ctx (build_deps (dependsOn seeder) (outputs st)) = Inl err"
      "fst (execute_unit clock config cof ctx i nm seeder st) = (\<not> cof)"
      "run_state.results (snd (execute_unit clock config cof ctx i nm seeder st))
         = (run_state.results st)[i := (run_state.results st ! i)
              \<lparr>status := Failed, durationMs := Some d, error := Some err\<rparr>]"
      "invocations (world (snd (execute_unit clock config cof ctx i nm seeder st)))
         = invocations (world st) @ [(nm, build_deps (dependsOn seeder) (outputs st), hs)]"
      "failedSeeders (snd (execute_unit clock config cof ctx i nm seeder st))
         = set_add (failedSeeders st) nm"
      "outputs (snd (execute_unit clock config cof ctx i nm seeder st)) = outputs st"
proof (cases "run seeder ctx (build_deps (dependsOn seeder) (outputs st))")
  case (Inr out)
  show ?thesis
    by (rule completed[OF Inr,
          where hs = "host (call_setSeederName config nm (world st))"
            and d = "clock (Suc (now_calls (call_setSeederName config nm (world st))))
                       - clock (now_calls (call_setSeederName config nm (world st)))"])
       (simp_all add: execute_unit_def call_setSeederName_def Let_def Inr split: option.splits)
next
  case (Inl err)
  show ?thesis
    by (rule failed[OF Inl,
          where hs = "host (call_setSeederName config nm (world st))"
            and d = "clock (Suc (now_calls (call_setSeederName config nm (world st))))
                       - clock (now_calls (call_setSeederName config nm (world st)))"])
       (simp_all add: execute_unit_def call_setSeederName_def Let_def Inl split: option.splits)
qed

subsection \<open>Stopping at the first failure\<close>








lemma call_hook_invocations: "invocations (call_hook hook w) = invocations w"
  by (simp add: call_hook_def split: option.splits)

lemma started_world_invocations: "invocations (started_world config h) = []"
  by (simp add: started_world_def call_hook_invocations)



lemma success_iff:
  "success (final_report st) \<longleftrightarrow> (\<forall>r \<in> set (run_state.results st). status r \<noteq> Failed)"
  by (simp add: final_report_def Let_def filter_empty_conv)



subsection \<open>Continuing after a failure\<close>

text \<open>Changing the entry at \<open>i\<close>, which was pending, to an entry of status \<open>x\<close>.\<close>

lemma halted_update:
  assumes "distinct order" and "i < length order" and "length rs = length order"
      and "status (rs ! i) = Pending" and "status r = x"
  shows "halted order (rs[i := r])
           = halted order rs \<union> (if x = Failed \<or> x = Skipped then {order ! i} else {})"
proof (intro set_eqI iffI)
  fix u assume "u \<in> halted order (rs[i := r])"
  then obtain j where j: "j < length order" "u = order ! j"
      "status (rs[i := r] ! j) = Failed \<or> status (rs[i := r] ! j) = Skipped"
    unfolding halted_def by blast
  show "u \<in> halted order rs \<union> (if x = Failed \<or> x = Skipped then {order ! i} else {})"
  proof (cases "j = i")
    case True
    then show ?thesis using j assms by simp
  next
    case False
    then have "status (rs ! j) = Failed \<or> status (rs ! j) = Skipped" using j(3) by simp
    then show ?thesis using j(1,2) unfolding halted_def by blast
  qed
next
  fix u assume u: "u \<in> halted order rs \<union> (if x = Failed \<or> x = Skipped then {order ! i} else {})"
  show "u \<in> halted order (rs[i := r])"
  proof (cases "u \<in> halted order rs")
    case True
    then obtain j where j: "j < length order" "u = order ! j"
      "status (rs ! j) = Failed \<or> status (rs ! j) = Skipped"
      unfolding halted_def by blast
    then have "j \<noteq> i" using assms(4) by auto
    then have "status (rs[i := r] ! j) = Failed \<or> status (rs[i := r] ! j) = Skipped"
      using j(3) by simp
    then show ?thesis using j(1,2) unfolding halted_def by blast
  next
    case False
    then have "u = order ! i" "x = Failed \<or> x = Skipped"
      using u by (auto split: if_splits)
    then have "status (rs[i := r] ! i) = Failed \<or> status (rs[i := r] ! i) = Skipped"
      using assms by simp
    then show ?thesis using \<open>u = order ! i\<close> assms(2) unfolding halted_def by blast
  qed
qed

lemma called_update:
  assumes "distinct order" and "i < length order" and "length rs = length order"
      and "status (rs ! i) = Pending" and "status r = x"
  shows "called order (rs[i := r])
           = called order rs \<union> (if x = Completed \<or> x = Failed then {order ! i} else {})"
proof (intro set_eqI iffI)
  fix u assume "u \<in> called order (rs[i := r])"
  then obtain j where j: "j < length order" "u = order ! j"
      "status (rs[i := r] ! j) = Completed \<or> status (rs[i := r] ! j) = Failed"
    unfolding called_def by blast
  show "u \<in> called order rs \<union> (if x = Completed \<or> x = Failed then {order ! i} else {})"
  proof (cases "j = i")
    case True
    then show ?thesis using j assms by simp
  next
    case False
    then have "status (rs ! j) = Completed \<or> status (rs ! j) = Failed" using j(3) by simp
    then show ?thesis using j(1,2) unfolding called_def by blast
  qed
next
  fix u assume u: "u \<in> called order rs \<union> (if x = Completed \<or> x = Failed then {order ! i} else {})"
  show "u \<in> called order (rs[i := r])"
  proof (cases "u \<in> called order rs")
    case True
    then obtain j where j: "j < length order" "u = order ! j"
      "status (rs ! j) = Completed \<or> status (rs ! j) = Failed"
      unfolding called_def by blast
    then have "j \<noteq> i" using assms(4) by auto
    then have "status (rs[i := r] ! j) = Completed \<or> status (rs[i := r] ! j) = Failed"
      using j(3) by simp
    then show ?thesis using j(1,2) unfolding called_def by blast
  next
    case False
    then have "u = order ! i" "x = Completed \<or> x = Failed"
      using u by (auto split: if_splits)
    then have "status (rs[i := r] ! i) = Completed \<or> status (rs[i := r] ! i) = Failed"
      using assms by simp
    then show ?thesis using \<open>u = order ! i\<close> assms(2) unfolding called_def by blast
  qed
qed


lemma later_not_earlier:
  assumes "distinct xs" and "j \<le> i" and "i < length xs"
  shows "xs ! i \<notin> set (take j xs)"
proof
  assume "xs ! i \<in> set (take j xs)"
  then obtain k where k: "k < length (take j xs)" "take j xs ! k = xs ! i"
    by (auto simp: in_set_conv_nth)
  then have "k < j" "k < length xs" "xs ! k = xs ! i"
    using assms(2,3) by auto
  then have "k = i"
    using assms(1,3) by (simp add: nth_eq_iff_index_eq)
  then show False using \<open>k < j\<close> assms(2) by simp
qed

lemma cont_inv_entry:
  fixes st st' :: "('o, 'e, 'h) run_state" and s :: "('c, 'o, 'e) Seeder"
  assumes inv: "cont_inv m ctx order i st"
      and i: "i < length order" and dist: "distinct order"
      and s: "map_get m (order ! i) = Some s"
      and topo: "\<forall>j < length order. \<forall>s'. map_get m (order ! j) = Some s'
                   \<longrightarrow> set (dependsOn s') \<subseteq> set (take j order)"
      and res: "run_state.results st' = (run_state.results st)[i := r]"
      and r: "SeederResult.name r = order ! i" "status r = x"
      and x: "x = Skipped \<or> x = Completed \<or> x = Failed"
      and fs: "set (failedSeeders st')
                 = set (failedSeeders st) \<union> (if x = Failed \<or> x = Skipped then {order ! i} else {})"
      and names: "fst ` set (invocations (world st'))
                 = fst ` set (invocations (world st))
                   \<union> (if x = Completed \<or> x = Failed then {order ! i} else {})"
      and new: "\<forall>e \<in> set (invocations (world st')). e \<notin> set (invocations (world st)) \<longrightarrow>
                  fst e = order ! i \<and>
                  (case run s ctx (fst (snd e)) of
                     Inl err \<Rightarrow> x = Failed \<and> error r = Some err
                   | Inr out \<Rightarrow> x = Completed \<and> output r = Some out)"
      and dec: "x = Skipped \<longleftrightarrow> (\<exists>d \<in> set (dependsOn s). d \<in> set (failedSeeders st))"
  shows "cont_inv m ctx order (Suc i) st'"
proof -
  let ?rs = "run_state.results st" and ?rs' = "run_state.results st'"
  have len: "length ?rs = length order"
    and nm: "\<forall>j < length order. SeederResult.name (?rs ! j) = order ! j"
    and pend: "\<forall>j < length order. i \<le> j \<longrightarrow> ?rs ! j = pending_result (order ! j)"
    and halt: "set (failedSeeders st) = halted order ?rs"
    and call: "fst ` set (invocations (world st)) = called order ?rs"
    and past: "\<forall>j < length order. j < i \<longrightarrow>
        (\<forall>s. map_get m (order ! j) = Some s \<longrightarrow>
           (status (?rs ! j) = Skipped \<longleftrightarrow> (\<exists>d \<in> set (dependsOn s). d \<in> halted order ?rs)) \<and>
           (status (?rs ! j) = Skipped \<or> status (?rs ! j) = Completed \<or> status (?rs ! j) = Failed))"
    and rec: "\<forall>e \<in> set (invocations (world st)). \<forall>s. map_get m (fst e) = Some s \<longrightarrow>
        outcome_recorded order ?rs s ctx e"
    using inv unfolding cont_inv_def by blast+
  have pi: "status (?rs ! i) = Pending"
    using pend i by (simp add: pending_result_def)
  have h': "halted order ?rs'
              = halted order ?rs \<union> (if x = Failed \<or> x = Skipped then {order ! i} else {})"
    unfolding res by (rule halted_update[OF dist i len pi r(2)])
  have c': "called order ?rs'
              = called order ?rs \<union> (if x = Completed \<or> x = Failed then {order ! i} else {})"
    unfolding res by (rule called_update[OF dist i len pi r(2)])
  have a1: "length ?rs' = length order"
    using len res by simp
  have a2: "\<forall>j < length order. SeederResult.name (?rs' ! j) = order ! j"
    using nm len res r(1) i by (auto simp: nth_list_update)
  have a3: "\<forall>j < length order. Suc i \<le> j \<longrightarrow> ?rs' ! j = pending_result (order ! j)"
    using pend res by simp
  have a4: "set (failedSeeders st') = halted order ?rs'"
    using fs halt h' by simp
  have a5: "fst ` set (invocations (world st')) = called order ?rs'"
    using names call c' by simp
  have unaffected: "(\<exists>d \<in> set (dependsOn s'). d \<in> halted order ?rs')
                      \<longleftrightarrow> (\<exists>d \<in> set (dependsOn s'). d \<in> halted order ?rs)"
    if j: "j \<le> i" and s': "map_get m (order ! j) = Some s'" for j s'
  proof -
    have "j < length order" using j i by simp
    then have "set (dependsOn s') \<subseteq> set (take j order)"
      using topo s' by blast
    moreover have "order ! i \<notin> set (take j order)"
      by (rule later_not_earlier[OF dist j i])
    ultimately have "order ! i \<notin> set (dependsOn s')" by blast
    then show ?thesis unfolding h' by auto
  qed
  have a6: "\<forall>j < length order. j < Suc i \<longrightarrow>
        (\<forall>s. map_get m (order ! j) = Some s \<longrightarrow>
           (status (?rs' ! j) = Skipped \<longleftrightarrow> (\<exists>d \<in> set (dependsOn s). d \<in> halted order ?rs')) \<and>
           (status (?rs' ! j) = Skipped \<or> status (?rs' ! j) = Completed \<or> status (?rs' ! j) = Failed))"
  proof (intro allI impI)
    fix j s' assume j: "j < length order" "j < Suc i" and s': "map_get m (order ! j) = Some s'"
    show "(status (?rs' ! j) = Skipped \<longleftrightarrow> (\<exists>d \<in> set (dependsOn s'). d \<in> halted order ?rs')) \<and>
           (status (?rs' ! j) = Skipped \<or> status (?rs' ! j) = Completed \<or> status (?rs' ! j) = Failed)"
    proof (cases "j = i")
      case True
      then have "s' = s" using s s' by simp
      moreover have "status (?rs' ! i) = x"
        using res r(2) len i by simp
      moreover have "(\<exists>d \<in> set (dependsOn s). d \<in> halted order ?rs')
                      \<longleftrightarrow> (\<exists>d \<in> set (dependsOn s). d \<in> halted order ?rs)"
        by (rule unaffected[OF order.refl s])
      ultimately show ?thesis
        using True dec halt x by simp
    next
      case False
      then have ji: "j < i" using j(2) by simp
      then have same: "?rs' ! j = ?rs ! j" using res by simp
      have "(\<exists>d \<in> set (dependsOn s'). d \<in> halted order ?rs')
                      \<longleftrightarrow> (\<exists>d \<in> set (dependsOn s'). d \<in> halted order ?rs)"
        using unaffected[OF _ s'] ji by simp
      then show ?thesis
        using past[rule_format, OF j(1) ji s'] same by auto
    qed
  qed
  have a7: "\<forall>e \<in> set (invocations (world st')). \<forall>s. map_get m (fst e) = Some s \<longrightarrow>
        outcome_recorded order ?rs' s ctx e"
  proof (intro ballI allI impI)
    fix e s' assume e: "e \<in> set (invocations (world st'))" and s': "map_get m (fst e) = Some s'"
    show "outcome_recorded order ?rs' s' ctx e"
    proof (cases "e \<in> set (invocations (world st))")
      case True
      then obtain j where j: "j < length order" "order ! j = fst e"
         "case run s' ctx (fst (snd e)) of
            Inl err \<Rightarrow> status (?rs ! j) = Failed \<and> error (?rs ! j) = Some err
          | Inr out \<Rightarrow> status (?rs ! j) = Completed \<and> output (?rs ! j) = Some out"
        using rec s' unfolding outcome_recorded_def by blast
      have "status (?rs ! j) \<noteq> Pending"
        using j(3) by (auto split: sum.splits)
      then have "j \<noteq> i" using pi by auto
      then have "?rs' ! j = ?rs ! j" using res by simp
      then show ?thesis
        unfolding outcome_recorded_def using j by (intro exI[of _ j]) (auto split: sum.splits)
    next
      case False
      then have f: "fst e = order ! i"
        and o: "case run s ctx (fst (snd e)) of
                     Inl err \<Rightarrow> x = Failed \<and> error r = Some err
                   | Inr out \<Rightarrow> x = Completed \<and> output r = Some out"
        using new e by blast+
      have "s' = s" using s s' f by simp
      moreover have "?rs' ! i = r" using res len i by simp
      ultimately show ?thesis
        unfolding outcome_recorded_def using i f o r(2)
        by (intro exI[of _ i]) (auto split: sum.splits)
    qed
  qed
  show ?thesis
    unfolding cont_inv_def using a1 a2 a3 a4 a5 a6 a7 by blast
qed


lemma cont_inv_initial:
  "cont_inv m ctx order 0 (initial_state order (started_world config h))"
  by (simp add: cont_inv_def initial_state_def started_world_invocations pending_result_def
        halted_def called_def)

lemma run_unit_continue_step:
  fixes st :: "('o, 'e, 'h) run_state" and m :: "(string, ('c, 'o, 'e) Seeder) js_map"
  assumes inv: "cont_inv m ctx order i st"
      and i: "i < length order" and dist: "distinct order"
      and named: "order ! i \<noteq> []" and s: "map_get m (order ! i) = Some s"
      and topo: "\<forall>j < length order. \<forall>s'. map_get m (order ! j) = Some s'
                   \<longrightarrow> set (dependsOn s') \<subseteq> set (take j order)"
  shows "\<not> fst (run_unit clock m config True order ctx i st)
         \<and> cont_inv m ctx order (Suc i) (snd (run_unit clock m config True order ctx i st))"
proof (cases "list_ex (set_has (failedSeeders st)) (dependsOn s)")
  case True
  let ?st' = "skip_unit i (order ! i) st"
  have ru: "run_unit clock m config True order ctx i st = (False, ?st')"
    using named s True by (simp add: run_unit_def Let_def)
  have nm: "SeederResult.name (run_state.results st ! i) = order ! i"
    using inv i unfolding cont_inv_def by blast
  have "cont_inv m ctx order (Suc i) ?st'"
  proof (rule cont_inv_entry[OF inv i dist s topo,
           where x = Skipped and r = "(run_state.results st ! i)\<lparr>status := Skipped\<rparr>"])
    show "run_state.results ?st'
            = (run_state.results st)[i := (run_state.results st ! i)\<lparr>status := Skipped\<rparr>]"
      by (simp add: skip_unit_def)
    show "SeederResult.name ((run_state.results st ! i)\<lparr>status := Skipped\<rparr>) = order ! i"
      using nm by simp
    show "set (failedSeeders ?st')
            = set (failedSeeders st)
              \<union> (if Skipped = Failed \<or> Skipped = Skipped then {order ! i} else {})"
      by (auto simp: skip_unit_def set_add_def)
    show "fst ` set (invocations (world ?st'))
            = fst ` set (invocations (world st))
              \<union> (if Skipped = Completed \<or> Skipped = Failed then {order ! i} else {})"
      by (simp add: skip_unit_def)
    show "\<forall>e \<in> set (invocations (world ?st')). e \<notin> set (invocations (world st)) \<longrightarrow>
            fst e = order ! i \<and>
            (case run s ctx (fst (snd e)) of
               Inl err \<Rightarrow> Skipped = Failed
                  \<and> error ((run_state.results st ! i)\<lparr>status := Skipped\<rparr>) = Some err
             | Inr out \<Rightarrow> Skipped = Completed
                  \<and> output ((run_state.results st ! i)\<lparr>status := Skipped\<rparr>) = Some out)"
      by (simp add: skip_unit_def)
    show "Skipped = Skipped \<longleftrightarrow> (\<exists>d \<in> set (dependsOn s). d \<in> set (failedSeeders st))"
      using True by (simp add: list_ex_iff set_has_def)
  qed simp_all
  then show ?thesis using ru by simp
next
  case False
  let ?ex = "execute_unit clock config True ctx i (order ! i) s st"
  have ru: "run_unit clock m config True order ctx i st = ?ex"
    using named s False by (simp add: run_unit_def Let_def)
  have nm: "SeederResult.name (run_state.results st ! i) = order ! i"
    using inv i unfolding cont_inv_def by blast
  have none: "\<not> (\<exists>d \<in> set (dependsOn s). d \<in> set (failedSeeders st))"
    using False by (simp add: list_ex_iff set_has_def)
  show ?thesis
  proof (cases rule: execute_unit_cases[of s ctx st clock config True i "order ! i"])
    case (completed out d hs)
    let ?r = "(run_state.results st ! i)\<lparr>status := Completed, durationMs := Some d, output := Some out\<rparr>"
    have "cont_inv m ctx order (Suc i) (snd ?ex)"
    proof (rule cont_inv_entry[OF inv i dist s topo, where x = Completed and r = ?r])
      show "run_state.results (snd ?ex) = (run_state.results st)[i := ?r]"
        by (rule completed(3))
      show "SeederResult.name ?r = order ! i" using nm by simp
      show "set (failedSeeders (snd ?ex))
              = set (failedSeeders st)
                \<union> (if Completed = Failed \<or> Completed = Skipped then {order ! i} else {})"
        using completed(5) by simp
      show "fst ` set (invocations (world (snd ?ex)))
              = fst ` set (invocations (world st))
                \<union> (if Completed = Completed \<or> Completed = Failed then {order ! i} else {})"
        using completed(4) by simp
      show "\<forall>e \<in> set (invocations (world (snd ?ex))). e \<notin> set (invocations (world st)) \<longrightarrow>
              fst e = order ! i \<and>
              (case run s ctx (fst (snd e)) of
                 Inl err \<Rightarrow> Completed = Failed \<and> error ?r = Some err
               | Inr out \<Rightarrow> Completed = Completed \<and> output ?r = Some out)"
        using completed(1,4) by auto
      show "Completed = Skipped \<longleftrightarrow> (\<exists>d \<in> set (dependsOn s). d \<in> set (failedSeeders st))"
        using none by simp
    qed simp_all
    then show ?thesis using ru completed(2) by simp
  next
    case (failed err d hs)
    let ?r = "(run_state.results st ! i)\<lparr>status := Failed, durationMs := Some d, error := Some err\<rparr>"
    have "cont_inv m ctx order (Suc i) (snd ?ex)"
    proof (rule cont_inv_entry[OF inv i dist s topo, where x = Failed and r = ?r])
      show "run_state.results (snd ?ex) = (run_state.results st)[i := ?r]"
        by (rule failed(3))
      show "SeederResult.name ?r = order ! i" using nm by simp
      show "set (failedSeeders (snd ?ex))
              = set (failedSeeders st)
                \<union> (if Failed = Failed \<or> Failed = Skipped then {order ! i} else {})"
        using failed(5) by (auto simp: set_add_def)
      show "fst ` set (invocations (world (snd ?ex)))
              = fst ` set (invocations (world st))
                \<union> (if Failed = Completed \<or> Failed = Failed then {order ! i} else {})"
        using failed(4) by simp
      show "\<forall>e \<in> set (invocations (world (snd ?ex))). e \<notin> set (invocations (world st)) \<longrightarrow>
              fst e = order ! i \<and>
              (case run s ctx (fst (snd e)) of
                 Inl err \<Rightarrow> Failed = Failed \<and> error ?r = Some err
               | Inr out \<Rightarrow> Failed = Completed \<and> output ?r = Some out)"
        using failed(1,4) by auto
      show "Failed = Skipped \<longleftrightarrow> (\<exists>d \<in> set (dependsOn s). d \<in> set (failedSeeders st))"
        using none by simp
    qed simp_all
    then show ?thesis using ru failed(2) by simp
  qed
qed

lemma run_loop_continue:
  fixes st :: "('o, 'e, 'h) run_state" and m :: "(string, ('c, 'o, 'e) Seeder) js_map"
  assumes "distinct order"
      and "\<forall>j < length order. order ! j \<noteq> [] \<and> map_get m (order ! j) \<noteq> None"
      and "\<forall>j < length order. \<forall>s'. map_get m (order ! j) = Some s'
                   \<longrightarrow> set (dependsOn s') \<subseteq> set (take j order)"
      and "i \<le> length order"
      and "cont_inv m ctx order i st"
  shows "cont_inv m ctx order (length order) (run_loop clock m config True order ctx i st)"
  using assms
proof (induction clock m config "True" order ctx i st rule: run_loop.induct)
  case (1 clock m config order ctx i st)
  show ?case
  proof (cases "i < length order")
    case False
    then have "i = length order" using "1.prems"(4) by simp
    then show ?thesis
      using "1.prems"(5) by (simp add: run_loop.simps[of _ _ _ _ _ _ "length order"])
  next
    case True
    let ?r = "run_unit clock m config True order ctx i st"
    obtain s where s: "map_get m (order ! i) = Some s" and named: "order ! i \<noteq> []"
      using "1.prems"(2) True by auto
    have step: "\<not> fst ?r \<and> cont_inv m ctx order (Suc i) (snd ?r)"
      by (rule run_unit_continue_step[OF "1.prems"(5) True "1.prems"(1) named s "1.prems"(3)])
    then have "cont_inv m ctx order (length order)
                 (run_loop clock m config True order ctx (Suc i) (snd ?r))"
      using "1.hyps"[OF True refl _ "1.prems"(1,2,3)] True by simp
    then show ?thesis
      using True step by (simp add: run_loop.simps[of _ _ _ _ _ _ i] Let_def)
  qed
qed


lemma takeWhile_upto_nth:
  "distinct xs \<Longrightarrow> j < length xs \<Longrightarrow> takeWhile (\<lambda>y. y \<noteq> xs ! j) xs = take j xs"
proof (induction xs arbitrary: j)
  case Nil
  then show ?case by simp
next
  case (Cons x xs)
  show ?case
  proof (cases j)
    case 0
    then show ?thesis by simp
  next
    case (Suc k)
    then have "xs ! k \<in> set xs" using Cons.prems(2) by simp
    then have "x \<noteq> xs ! k" using Cons.prems(1) by auto
    then show ?thesis using Suc Cons by simp
  qed
qed

lemma resolved_dependencies_earlier:
  fixes seeders :: "('c, 'o, 'e) Seeder list"
  assumes res: "resolveDependencyOrder seeders = Inr order"
      and j: "j < length order" and s: "map_get (build_seederMap seeders) (order ! j) = Some s"
  shows "set (dependsOn s) \<subseteq> set (take j order)"
proof -
  have o: "order = kahn_order seeders" by (rule resolved_order(1)[OF res])
  have dn: "distinct (map name seeders)" and d: "distinct order"
    using resolved_names[OF res] by simp_all
  have mem: "s \<in> set seeders" and nm: "name s = order ! j"
    using s seederMap_lookup[OF dn] by auto
  have "name s \<in> set (kahn_order seeders)"
    using nm j o by auto
  then have "set (dependsOn s) \<subseteq> set (takeWhile (\<lambda>x. x \<noteq> name s) (kahn_order seeders))"
    by (rule kahn_order_closed(2)[OF dn mem])
  then show ?thesis
    using takeWhile_upto_nth[OF d j] nm o by simp
qed

text \<open>
  A run with \<open>continueOnFailure\<close> over a resolved registry in which no unit has the empty
  name.  The ledger has one entry per name of the order.  The entry of a unit is skipped
  exactly when one of its dependencies has a failed or skipped entry, and then its work
  function was not called; otherwise the work function was called and the entry is completed
  or failed.  Every call is recorded with its outcome, and \<open>success\<close> is true exactly when no
  entry is failed.
\<close>

lemma continue_run_ledger:
  fixes seeders :: "('c, 'o, 'e) Seeder list" and config :: "('c, 'h) InternalSeederConfig"
  assumes cont: "continueOnFailure options = Some True"
      and res: "resolveDependencyOrder seeders = Inr order"
      and named: "[] \<notin> name ` set seeders"
      and run: "runSeedersCore clock seeders config options h = (rep, w)"
  shows "map SeederResult.name (RunReport.results rep) = order"
    and "\<forall>k < length order. \<forall>s \<in> set seeders. name s = order ! k \<longrightarrow>
           (status (RunReport.results rep ! k) = Skipped
              \<longleftrightarrow> (\<exists>d \<in> set (dependsOn s). d \<in> halted order (RunReport.results rep)))
           \<and> (status (RunReport.results rep ! k) = Skipped
                \<longrightarrow> order ! k \<notin> fst ` set (invocations w))
           \<and> (status (RunReport.results rep ! k) \<noteq> Skipped
                \<longrightarrow> order ! k \<in> fst ` set (invocations w)
                    \<and> (status (RunReport.results rep ! k) = Completed
                       \<or> status (RunReport.results rep ! k) = Failed))"
    and "\<forall>e \<in> set (invocations w). \<forall>s \<in> set seeders. name s = fst e \<longrightarrow>
           outcome_recorded order (RunReport.results rep) s (InternalSeederConfig.context config ()) e"
    and "success rep \<longleftrightarrow> (\<forall>r \<in> set (RunReport.results rep). status r \<noteq> Failed)"
proof -
  let ?m = "build_seederMap seeders" and ?ctx = "InternalSeederConfig.context config ()"
  let ?st = "loop_result clock seeders config options h order :: ('o, 'e, 'h) run_state"
  let ?rs = "run_state.results ?st"
  have dn: "distinct (map name seeders)" and d: "distinct order"
    and names: "set order = name ` set seeders"
    using resolved_names[OF res] by simp_all
  have flag: "continue_flag options = True"
    using cont by (simp add: continue_flag_def)
  have core: "rep = final_report ?st"
    "w = call_hook (InternalSeederConfig.onAfterAll config) (world ?st)"
    using run runSeedersCore_resolved[OF res, of clock config options h] by simp_all
  have rs: "RunReport.results rep = ?rs"
    using core(1) by (simp add: final_report_def Let_def)
  have ws: "invocations w = invocations (world ?st)"
    using core(2) by (simp add: call_hook_invocations)
  have present: "\<forall>j < length order. order ! j \<noteq> [] \<and> map_get ?m (order ! j) \<noteq> None"
  proof (intro allI impI)
    fix j assume "j < length order"
    then have "order ! j \<in> name ` set seeders" using names nth_mem by blast
    then show "order ! j \<noteq> [] \<and> map_get ?m (order ! j) \<noteq> None"
      using named map_has_seederMap[of seeders "order ! j"] by (auto simp: map_has_def)
  qed
  have topo: "\<forall>j < length order. \<forall>s'. map_get ?m (order ! j) = Some s'
                   \<longrightarrow> set (dependsOn s') \<subseteq> set (take j order)"
    using resolved_dependencies_earlier[OF res] by blast
  have "cont_inv ?m ?ctx order (length order) ?st"
    unfolding loop_result_def flag
    by (rule run_loop_continue[OF d present topo _ cont_inv_initial]) simp
  then have len: "length ?rs = length order"
    and nm: "\<forall>j < length order. SeederResult.name (?rs ! j) = order ! j"
    and call: "fst ` set (invocations (world ?st)) = called order ?rs"
    and past: "\<forall>j < length order. j < length order \<longrightarrow>
        (\<forall>s. map_get ?m (order ! j) = Some s \<longrightarrow>
           (status (?rs ! j) = Skipped \<longleftrightarrow> (\<exists>d \<in> set (dependsOn s). d \<in> halted order ?rs)) \<and>
           (status (?rs ! j) = Skipped \<or> status (?rs ! j) = Completed \<or> status (?rs ! j) = Failed))"
    and rec: "\<forall>e \<in> set (invocations (world ?st)). \<forall>s. map_get ?m (fst e) = Some s \<longrightarrow>
        outcome_recorded order ?rs s ?ctx e"
    unfolding cont_inv_def by blast+
  show "map SeederResult.name (RunReport.results rep) = order"
    unfolding rs using len nm by (simp add: list_eq_iff_nth_eq)
  show "\<forall>k < length order. \<forall>s \<in> set seeders. name s = order ! k \<longrightarrow>
           (status (RunReport.results rep ! k) = Skipped
              \<longleftrightarrow> (\<exists>d \<in> set (dependsOn s). d \<in> halted order (RunReport.results rep)))
           \<and> (status (RunReport.results rep ! k) = Skipped
                \<longrightarrow> order ! k \<notin> fst ` set (invocations w))
           \<and> (status (RunReport.results rep ! k) \<noteq> Skipped
                \<longrightarrow> order ! k \<in> fst ` set (invocations w)
                    \<and> (status (RunReport.results rep ! k) = Completed
                       \<or> status (RunReport.results rep ! k) = Failed))"
    unfolding rs ws call
  proof (intro allI ballI impI)
    fix k s assume k: "k < length order" and s: "s \<in> set seeders" "name s = order ! k"
    have g: "map_get ?m (order ! k) = Some s"
      using s seederMap_lookup[OF dn] by simp
    note p = past[rule_format, OF k k g]
    have in_called: "order ! k \<in> called order ?rs
                       \<longleftrightarrow> status (?rs ! k) = Completed \<or> status (?rs ! k) = Failed"
    proof
      assume "order ! k \<in> called order ?rs"
      then obtain j where j: "j < length order" "order ! k = order ! j"
          "status (?rs ! j) = Completed \<or> status (?rs ! j) = Failed"
        unfolding called_def by blast
      then have "j = k" using d k by (simp add: nth_eq_iff_index_eq)
      then show "status (?rs ! k) = Completed \<or> status (?rs ! k) = Failed" using j(3) by simp
    next
      assume "status (?rs ! k) = Completed \<or> status (?rs ! k) = Failed"
      then show "order ! k \<in> called order ?rs"
        unfolding called_def using k by blast
    qed
    show "(status (?rs ! k) = Skipped \<longleftrightarrow> (\<exists>d \<in> set (dependsOn s). d \<in> halted order ?rs))
           \<and> (status (?rs ! k) = Skipped \<longrightarrow> order ! k \<notin> called order ?rs)
           \<and> (status (?rs ! k) \<noteq> Skipped
                \<longrightarrow> order ! k \<in> called order ?rs
                    \<and> (status (?rs ! k) = Completed \<or> status (?rs ! k) = Failed))"
      using p in_called by auto
  qed
  show "\<forall>e \<in> set (invocations w). \<forall>s \<in> set seeders. name s = fst e \<longrightarrow>
           outcome_recorded order (RunReport.results rep) s ?ctx e"
    unfolding rs ws using rec seederMap_lookup[OF dn] by blast
  show "success rep \<longleftrightarrow> (\<forall>r \<in> set (RunReport.results rep). status r \<noteq> Failed)"
    using success_iff[of ?st] rs core(1) by simp
qed

subsection \<open>Continuing after a failure: the unit with the empty name\<close>

text \<open>
  C3.  With \<open>continueOnFailure\<close>, a unit with a dependency in the failed-set is to be marked
  skipped and to join the failed-set, so that its own dependents are skipped too, and a unit
  with no failed or skipped ancestor is to run.  The guard \<open>if (!name || !result) continue\<close>
  at the head of the loop, meant for an index out of bounds, also catches the empty string:
  a unit with the empty name is passed over before the failed-set is consulted.  In the run
  below \<open>A\<close> fails; the unit with the empty name depends on \<open>A\<close> and yet stays pending, it is
  neither skipped nor added to the failed-set; and \<open>C\<close>, which depends on it and so has the
  failed \<open>A\<close> among its ancestors, is called (with \<open>undefined\<close> for the output of its
  dependency) and completes.
\<close>

theorem empty_name_is_passed_over:
  "continueOnFailure continue_options = Some True
   \<and> resolveDependencyOrder unnamed_registry = Inr [''A'', [], ''C'']
   \<and> runSeedersCore tick unnamed_registry plain_config continue_options () =
     (\<lparr>RunReport.results =
         [\<lparr>SeederResult.name = ''A'', status = Failed, durationMs = Some 10, output = None,
           error = Some ''Failed!''\<rparr>,
          \<lparr>SeederResult.name = [], status = Pending, durationMs = None, output = None,
           error = None\<rparr>,
          \<lparr>SeederResult.name = ''C'', status = Completed, durationMs = Some 10, output = Some 2,
           error = None\<rparr>],
       success = False\<rparr>,
      \<lparr>host = (), console_error = [],
       invocations = [(''A'', [], ()), (''C'', [([], None)], ())], now_calls = 4\<rparr>)"
proof -
  have "continueOnFailure continue_options = Some True"
    by (simp add: continue_options_def)
  moreover have "resolveDependencyOrder unnamed_registry = Inr [''A'', [], ''C'']"
    by code_simp
  moreover have "runSeedersCore tick unnamed_registry plain_config continue_options () =
     (\<lparr>RunReport.results =
         [\<lparr>SeederResult.name = ''A'', status = Failed, durationMs = Some 10, output = None,
           error = Some ''Failed!''\<rparr>,
          \<lparr>SeederResult.name = [], status = Pending, durationMs = None, output = None,
           error = None\<rparr>,
          \<lparr>SeederResult.name = ''C'', status = Completed, durationMs = Some 10, output = Some 2,
           error = None\<rparr>],
       success = False\<rparr>,
      \<lparr>host = (), console_error = [],
       invocations = [(''A'', [], ()), (''C'', [([], None)], ())], now_calls = 4\<rparr>)"
    by code_simp
  ultimately show ?thesis by simp
qed

subsection \<open>Optional fields of the ledger\<close>

lemma exec_inv_initial:
  "exec_inv m ctx clock order 0 (initial_state order (started_world config h))"
  by (simp add: exec_inv_def initial_state_def started_world_invocations pending_result_def
        called_def)

lemma exec_inv_pass:
  "exec_inv m ctx clock order i st \<Longrightarrow> exec_inv m ctx clock order (Suc i) st"
  unfolding exec_inv_def by simp

lemma exec_inv_entry:
  fixes st st' :: "('o, 'e, 'h) run_state" and s :: "('c, 'o, 'e) Seeder"
  assumes inv: "exec_inv m ctx clock order i st"
      and i: "i < length order" and dist: "distinct order"
      and s: "map_get m (order ! i) = Some s"
      and res: "run_state.results st' = (run_state.results st)[i := r]"
      and r: "SeederResult.name r = order ! i" "status r = x"
      and names: "fst ` set (invocations (world st'))
                 = fst ` set (invocations (world st))
                   \<union> (if x = Completed \<or> x = Failed then {order ! i} else {})"
      and new: "\<forall>e \<in> set (invocations (world st')). e \<notin> set (invocations (world st)) \<longrightarrow>
                  fst e = order ! i \<and>
                  (case run s ctx (fst (snd e)) of
                     Inl err \<Rightarrow> x = Failed \<and> error r = Some err
                   | Inr out \<Rightarrow> x = Completed \<and> output r = Some out)"
      and dur: "\<forall>d. durationMs r = Some d \<longrightarrow> (\<exists>k. d = clock (Suc k) - clock k)"
  shows "exec_inv m ctx clock order (Suc i) st'"
proof -
  let ?rs = "run_state.results st" and ?rs' = "run_state.results st'"
  have len: "length ?rs = length order"
    and nm: "\<forall>j < length order. SeederResult.name (?rs ! j) = order ! j"
    and pend: "\<forall>j < length order. i \<le> j \<longrightarrow> ?rs ! j = pending_result (order ! j)"
    and call: "fst ` set (invocations (world st)) = called order ?rs"
    and rec: "\<forall>e \<in> set (invocations (world st)). \<forall>s. map_get m (fst e) = Some s \<longrightarrow>
        outcome_recorded order ?rs s ctx e"
    and durs: "\<forall>j < length order. \<forall>d. durationMs (?rs ! j) = Some d \<longrightarrow>
        (\<exists>k. d = clock (Suc k) - clock k)"
    using inv unfolding exec_inv_def by blast+
  have pi: "status (?rs ! i) = Pending"
    using pend i by (simp add: pending_result_def)
  have c': "called order ?rs'
              = called order ?rs \<union> (if x = Completed \<or> x = Failed then {order ! i} else {})"
    unfolding res by (rule called_update[OF dist i len pi r(2)])
  have a1: "length ?rs' = length order"
    using len res by simp
  have a2: "\<forall>j < length order. SeederResult.name (?rs' ! j) = order ! j"
    using nm len res r(1) i by (auto simp: nth_list_update)
  have a3: "\<forall>j < length order. Suc i \<le> j \<longrightarrow> ?rs' ! j = pending_result (order ! j)"
    using pend res by simp
  have a4: "fst ` set (invocations (world st')) = called order ?rs'"
    using names call c' by simp
  have a5: "\<forall>e \<in> set (invocations (world st')). \<forall>s. map_get m (fst e) = Some s \<longrightarrow>
        outcome_recorded order ?rs' s ctx e"
  proof (intro ballI allI impI)
    fix e s' assume e: "e \<in> set (invocations (world st'))" and s': "map_get m (fst e) = Some s'"
    show "outcome_recorded order ?rs' s' ctx e"
    proof (cases "e \<in> set (invocations (world st))")
      case True
      then obtain j where j: "j < length order" "order ! j = fst e"
         "case run s' ctx (fst (snd e)) of
            Inl err \<Rightarrow> status (?rs ! j) = Failed \<and> error (?rs ! j) = Some err
          | Inr out \<Rightarrow> status (?rs ! j) = Completed \<and> output (?rs ! j) = Some out"
        using rec s' unfolding outcome_recorded_def by blast
      have "status (?rs ! j) \<noteq> Pending"
        using j(3) by (auto split: sum.splits)
      then have "j \<noteq> i" using pi by auto
      then have "?rs' ! j = ?rs ! j" using res by simp
      then show ?thesis
        unfolding outcome_recorded_def using j by (intro exI[of _ j]) (auto split: sum.splits)
    next
      case False
      then have f: "fst e = order ! i"
        and o: "case run s ctx (fst (snd e)) of
                     Inl err \<Rightarrow> x = Failed \<and> error r = Some err
                   | Inr out \<Rightarrow> x = Completed \<and> output r = Some out"
        using new e by blast+
      have "s' = s" using s s' f by simp
      moreover have "?rs' ! i = r" using res len i by simp
      ultimately show ?thesis
        unfolding outcome_recorded_def using i f o r(2)
        by (intro exI[of _ i]) (auto split: sum.splits)
    qed
  qed
  have a6: "\<forall>j < length order. \<forall>d. durationMs (?rs' ! j) = Some d \<longrightarrow>
        (\<exists>k. d = clock (Suc k) - clock k)"
  proof (intro allI impI)
    fix j d assume j: "j < length order" and d: "durationMs (?rs' ! j) = Some d"
    show "\<exists>k. d = clock (Suc k) - clock k"
    proof (cases "j = i")
      case True
      then have "?rs' ! j = r" using res len i by simp
      then show ?thesis using dur d by simp
    next
      case False
      then have "?rs' ! j = ?rs ! j" using res by simp
      then show ?thesis using durs j d by simp
    qed
  qed
  show ?thesis
    unfolding exec_inv_def using a1 a2 a3 a4 a5 a6 by blast
qed

lemma run_unit_cases:
  obtains (pass) "run_unit clock m config cof order ctx i st = (False, st)"
  | (skip) s where "map_get m (order ! i) = Some s"
      "run_unit clock m config cof order ctx i st = (False, skip_unit i (order ! i) st)"
  | (exec) s where "map_get m (order ! i) = Some s"
      "run_unit clock m config cof order ctx i st
         = execute_unit clock config cof ctx i (order ! i) s st"
proof (cases "order ! i = [] \<or> map_get m (order ! i) = None")
  case True
  then show ?thesis by (intro pass) (auto simp: run_unit_def Let_def)
next
  case False
  then obtain s where s: "map_get m (order ! i) = Some s" and named: "order ! i \<noteq> []"
    by auto
  show ?thesis
  proof (cases "cof \<and> list_ex (set_has (failedSeeders st)) (dependsOn s)")
    case True
    then show ?thesis using s named by (intro skip[of s]) (simp_all add: run_unit_def Let_def)
  next
    case False
    then have "run_unit clock m config cof order ctx i st
                 = execute_unit clock config cof ctx i (order ! i) s st"
      using s named by (auto simp: run_unit_def Let_def)
    then show ?thesis using s by (intro exec[of s])
  qed
qed

lemma execute_unit_duration:
  assumes "i < length (run_state.results st)"
  shows "\<exists>k. durationMs (run_state.results (snd (execute_unit clock config cof ctx i nm seeder st)) ! i)
               = Some (clock (Suc k) - clock k)"
  using assms
  by (auto simp: execute_unit_def Let_def split: sum.splits)

lemma run_unit_exec_step:
  fixes st :: "('o, 'e, 'h) run_state" and m :: "(string, ('c, 'o, 'e) Seeder) js_map"
  assumes inv: "exec_inv m ctx clock order i st"
      and i: "i < length order" and dist: "distinct order"
  shows "exec_inv m ctx clock order (Suc i) (snd (run_unit clock m config cof order ctx i st))"
proof (cases rule: run_unit_cases[of clock m config cof order ctx i st])
  case pass
  then show ?thesis using exec_inv_pass[OF inv] by simp
next
  case (skip s)
  let ?st' = "skip_unit i (order ! i) st"
  have nm: "SeederResult.name (run_state.results st ! i) = order ! i"
    and pend: "run_state.results st ! i = pending_result (order ! i)"
    using inv i unfolding exec_inv_def by auto
  have "exec_inv m ctx clock order (Suc i) ?st'"
  proof (rule exec_inv_entry[OF inv i dist skip(1),
           where x = Skipped and r = "(run_state.results st ! i)\<lparr>status := Skipped\<rparr>"])
    show "run_state.results ?st'
            = (run_state.results st)[i := (run_state.results st ! i)\<lparr>status := Skipped\<rparr>]"
      by (simp add: skip_unit_def)
    show "SeederResult.name ((run_state.results st ! i)\<lparr>status := Skipped\<rparr>) = order ! i"
      using nm by simp
    show "fst ` set (invocations (world ?st'))
            = fst ` set (invocations (world st))
              \<union> (if Skipped = Completed \<or> Skipped = Failed then {order ! i} else {})"
      by (simp add: skip_unit_def)
    show "\<forall>e \<in> set (invocations (world ?st')). e \<notin> set (invocations (world st)) \<longrightarrow>
            fst e = order ! i \<and>
            (case run s ctx (fst (snd e)) of
               Inl err \<Rightarrow> Skipped = Failed
                  \<and> error ((run_state.results st ! i)\<lparr>status := Skipped\<rparr>) = Some err
             | Inr out \<Rightarrow> Skipped = Completed
                  \<and> output ((run_state.results st ! i)\<lparr>status := Skipped\<rparr>) = Some out)"
      by (simp add: skip_unit_def)
    show "\<forall>d. durationMs ((run_state.results st ! i)\<lparr>status := Skipped\<rparr>) = Some d
            \<longrightarrow> (\<exists>k. d = clock (Suc k) - clock k)"
      using pend by (simp add: pending_result_def)
  qed simp
  then show ?thesis using skip(2) by simp
next
  case (exec s)
  let ?ex = "execute_unit clock config cof ctx i (order ! i) s st"
  have nm: "SeederResult.name (run_state.results st ! i) = order ! i"
    and len: "length (run_state.results st) = length order"
    using inv i unfolding exec_inv_def by auto
  obtain k where k: "durationMs (run_state.results (snd ?ex) ! i) = Some (clock (Suc k) - clock k)"
    using execute_unit_duration[of i st clock config cof ctx "order ! i" s] i len by auto
  have "exec_inv m ctx clock order (Suc i) (snd ?ex)"
  proof (cases rule: execute_unit_cases[of s ctx st clock config cof i "order ! i"])
    case (completed out d hs)
    let ?r = "(run_state.results st ! i)\<lparr>status := Completed, durationMs := Some d, output := Some out\<rparr>"
    have d: "d = clock (Suc k) - clock k"
      using k completed(3) i len by simp
    show ?thesis
    proof (rule exec_inv_entry[OF inv i dist exec(1), where x = Completed and r = ?r])
      show "run_state.results (snd ?ex) = (run_state.results st)[i := ?r]"
        by (rule completed(3))
      show "SeederResult.name ?r = order ! i" using nm by simp
      show "fst ` set (invocations (world (snd ?ex)))
              = fst ` set (invocations (world st))
                \<union> (if Completed = Completed \<or> Completed = Failed then {order ! i} else {})"
        using completed(4) by simp
      show "\<forall>e \<in> set (invocations (world (snd ?ex))). e \<notin> set (invocations (world st)) \<longrightarrow>
              fst e = order ! i \<and>
              (case run s ctx (fst (snd e)) of
                 Inl err \<Rightarrow> Completed = Failed \<and> error ?r = Some err
               | Inr out \<Rightarrow> Completed = Completed \<and> output ?r = Some out)"
        using completed(1,4) by auto
      show "\<forall>d'. durationMs ?r = Some d' \<longrightarrow> (\<exists>k. d' = clock (Suc k) - clock k)"
        using d by auto
    qed simp
  next
    case (failed err d hs)
    let ?r = "(run_state.results st ! i)\<lparr>status := Failed, durationMs := Some d, error := Some err\<rparr>"
    have d: "d = clock (Suc k) - clock k"
      using k failed(3) i len by simp
    show ?thesis
    proof (rule exec_inv_entry[OF inv i dist exec(1), where x = Failed and r = ?r])
      show "run_state.results (snd ?ex) = (run_state.results st)[i := ?r]"
        by (rule failed(3))
      show "SeederResult.name ?r = order ! i" using nm by simp
      show "fst ` set (invocations (world (snd ?ex)))
              = fst ` set (invocations (world st))
                \<union> (if Failed = Completed \<or> Failed = Failed then {order ! i} else {})"
        using failed(4) by simp
      show "\<forall>e \<in> set (invocations (world (snd ?ex))). e \<notin> set (invocations (world st)) \<longrightarrow>
              fst e = order ! i \<and>
              (case run s ctx (fst (snd e)) of
                 Inl err \<Rightarrow> Failed = Failed \<and> error ?r = Some err
               | Inr out \<Rightarrow> Failed = Completed \<and> output ?r = Some out)"
        using failed(1,4) by auto
      show "\<forall>d'. durationMs ?r = Some d' \<longrightarrow> (\<exists>k. d' = clock (Suc k) - clock k)"
        using d by auto
    qed simp
  qed
  then show ?thesis using exec(2) by simp
qed

lemma run_loop_exec:
  fixes st :: "('o, 'e, 'h) run_state" and m :: "(string, ('c, 'o, 'e) Seeder) js_map"
  assumes "distinct order" and "exec_inv m ctx clock order i st"
  shows "\<exists>i'. exec_inv m ctx clock order i' (run_loop clock m config cof order ctx i st)"
  using assms
proof (induction clock m config cof order ctx i st rule: run_loop.induct)
  case (1 clock m config cof order ctx i st)
  show ?case
  proof (cases "i < length order")
    case False
    then show ?thesis
      using "1.prems"(2) by (auto simp: run_loop.simps[of _ _ _ _ _ _ i])
  next
    case True
    let ?r = "run_unit clock m config cof order ctx i st"
    have step: "exec_inv m ctx clock order (Suc i) (snd ?r)"
      by (rule run_unit_exec_step[OF "1.prems"(2) True "1.prems"(1)])
    show ?thesis
    proof (cases "fst ?r")
      case brk: True
      then show ?thesis
        using True step by (auto simp: run_loop.simps[of _ _ _ _ _ _ i] Let_def)
    next
      case False
      then have "\<exists>i'. exec_inv m ctx clock order i'
                   (run_loop clock m config cof order ctx (Suc i) (snd ?r))"
        using "1.IH"[OF True refl False "1.prems"(1) step] by simp
      then show ?thesis
        using True False by (simp add: run_loop.simps[of _ _ _ _ _ _ i] Let_def)
    qed
  qed
qed


lemma loop_result_exec:
  fixes seeders :: "('c, 'o, 'e) Seeder list" and config :: "('c, 'h) InternalSeederConfig"
  assumes "distinct order"
  shows "\<exists>i. exec_inv (build_seederMap seeders) (InternalSeederConfig.context config ()) clock order i
           (loop_result clock seeders config options h order :: ('o, 'e, 'h) run_state)"
  unfolding loop_result_def
  by (rule run_loop_exec[OF assms exec_inv_initial])

text \<open>
  C8.  Take an entry of the ledger that any run returns.  It has an output only if its status
  is completed, an error only if its status is failed, and it is not left running.  It has a
  duration exactly if its status is completed or failed, and that is exactly if the work
  function of its unit was called in the run; the duration is then the difference of two
  successive readings of the clock.  Every call of the work function of its unit is recorded
  in it: if the call threw, the entry is failed and carries what was thrown, and if the call
  returned, the entry is completed and carries what was returned.  Every unit that was called
  has an entry.  So pending and skipped entries carry none of the three fields, and their
  units were not executed.
\<close>

theorem ledger_fields_match_status:
  fixes seeders :: "('c, 'o, 'e) Seeder list" and config :: "('c, 'h) InternalSeederConfig"
  assumes run: "runSeedersCore clock seeders config options h = (rep, w)"
      and r: "r \<in> set (RunReport.results rep)"
  shows "(output r \<noteq> None \<longrightarrow> status r = Completed) \<and>
         (error r \<noteq> None \<longrightarrow> status r = Failed) \<and>
         ((durationMs r \<noteq> None) = (status r = Completed \<or> status r = Failed)) \<and>
         status r \<noteq> Running \<and>
         ((durationMs r \<noteq> None) = (SeederResult.name r \<in> fst ` set (invocations w))) \<and>
         (\<forall>d. durationMs r = Some d \<longrightarrow> (\<exists>k. d = clock (Suc k) - clock k)) \<and>
         (\<forall>e \<in> set (invocations w). \<forall>s \<in> set seeders.
            name s = fst e \<and> fst e = SeederResult.name r \<longrightarrow>
              (case run s (InternalSeederConfig.context config ()) (fst (snd e)) of
                 Inl err \<Rightarrow> status r = Failed \<and> error r = Some err
               | Inr out \<Rightarrow> status r = Completed \<and> output r = Some out)) \<and>
         fst ` set (invocations w) \<subseteq> SeederResult.name ` set (RunReport.results rep)"
proof (cases "resolveDependencyOrder seeders")
  case (Inl err)
  then have "RunReport.results rep = []"
    using run runSeedersCore_unresolved[OF Inl, of clock config options h] by simp
  then show ?thesis using r by simp
next
  case (Inr order)
  let ?m = "build_seederMap seeders" and ?ctx = "InternalSeederConfig.context config ()"
  let ?st = "loop_result clock seeders config options h order :: ('o, 'e, 'h) run_state"
  let ?rs = "run_state.results ?st"
  have dn: "distinct (map name seeders)" and d: "distinct order"
    using resolved_names[OF Inr] by simp_all
  have core: "rep = final_report ?st"
    "w = call_hook (InternalSeederConfig.onAfterAll config) (world ?st)"
    using run runSeedersCore_resolved[OF Inr, of clock config options h] by simp_all
  have rs: "RunReport.results rep = ?rs"
    using core(1) by (simp add: final_report_def Let_def)
  have ws: "invocations w = invocations (world ?st)"
    using core(2) by (simp add: call_hook_invocations)
  obtain i where "exec_inv ?m ?ctx clock order i ?st"
    using loop_result_exec[OF d, of seeders config clock options h] by blast
  then have len: "length ?rs = length order"
    and nm: "\<forall>j < length order. SeederResult.name (?rs ! j) = order ! j"
    and call: "fst ` set (invocations (world ?st)) = called order ?rs"
    and rec: "\<forall>e \<in> set (invocations (world ?st)). \<forall>s. map_get ?m (fst e) = Some s \<longrightarrow>
        outcome_recorded order ?rs s ?ctx e"
    and durs: "\<forall>j < length order. \<forall>d. durationMs (?rs ! j) = Some d \<longrightarrow>
        (\<exists>k. d = clock (Suc k) - clock k)"
    unfolding exec_inv_def by blast+
  obtain j where j: "j < length order" "r = ?rs ! j"
    using r rs len by (auto simp: in_set_conv_nth)
  have rn: "SeederResult.name r = order ! j"
    using nm j by simp
  have cons: "consistent_result r"
    using loop_result_consistent[of clock seeders config options h order] j by simp
  have in_called: "order ! j \<in> called order ?rs
                     \<longleftrightarrow> status r = Completed \<or> status r = Failed"
  proof
    assume "order ! j \<in> called order ?rs"
    then obtain j' where j': "j' < length order" "order ! j = order ! j'"
        "status (?rs ! j') = Completed \<or> status (?rs ! j') = Failed"
      unfolding called_def by blast
    then have "j' = j" using d j(1) by (simp add: nth_eq_iff_index_eq)
    then show "status r = Completed \<or> status r = Failed" using j'(3) j(2) by simp
  next
    assume "status r = Completed \<or> status r = Failed"
    then show "order ! j \<in> called order ?rs"
      unfolding called_def using j by blast
  qed
  have c5: "(durationMs r \<noteq> None) = (SeederResult.name r \<in> fst ` set (invocations w))"
    using cons in_called unfolding consistent_result_def ws call rn by blast
  have c6: "\<forall>d. durationMs r = Some d \<longrightarrow> (\<exists>k. d = clock (Suc k) - clock k)"
    using durs j by simp
  have c7: "\<forall>e \<in> set (invocations w). \<forall>s \<in> set seeders.
            name s = fst e \<and> fst e = SeederResult.name r \<longrightarrow>
              (case run s ?ctx (fst (snd e)) of
                 Inl err \<Rightarrow> status r = Failed \<and> error r = Some err
               | Inr out \<Rightarrow> status r = Completed \<and> output r = Some out)"
  proof (intro ballI impI)
    fix e s assume e: "e \<in> set (invocations w)" and s: "s \<in> set seeders"
      and eq: "name s = fst e \<and> fst e = SeederResult.name r"
    have "map_get ?m (fst e) = Some s"
      using s eq seederMap_lookup[OF dn] by simp
    then have "outcome_recorded order ?rs s ?ctx e"
      using rec e ws by simp
    then obtain j' where j': "j' < length order" "order ! j' = fst e"
        "case run s ?ctx (fst (snd e)) of
           Inl err \<Rightarrow> status (?rs ! j') = Failed \<and> error (?rs ! j') = Some err
         | Inr out \<Rightarrow> status (?rs ! j') = Completed \<and> output (?rs ! j') = Some out"
      unfolding outcome_recorded_def by blast
    have "order ! j' = order ! j" using j'(2) eq rn by simp
    then have "j' = j" using d j(1) j'(1) by (simp add: nth_eq_iff_index_eq)
    then show "case run s ?ctx (fst (snd e)) of
                 Inl err \<Rightarrow> status r = Failed \<and> error r = Some err
               | Inr out \<Rightarrow> status r = Completed \<and> output r = Some out"
      using j'(3) j(2) by (auto split: sum.splits)
  qed
  have c8: "fst ` set (invocations w) \<subseteq> SeederResult.name ` set (RunReport.results rep)"
  proof
    fix u assume "u \<in> fst ` set (invocations w)"
    then have "u \<in> called order ?rs" using ws call by simp
    then obtain j' where j': "j' < length order" "u = order ! j'"
      unfolding called_def by blast
    then have "?rs ! j' \<in> set ?rs" "SeederResult.name (?rs ! j') = u"
      using len nm by simp_all
    then show "u \<in> SeederResult.name ` set (RunReport.results rep)"
      unfolding rs by blast
  qed
  show ?thesis
    using cons c5 c6 c7 c8 unfolding consistent_result_def by blast
qed

theorem ledger_fields_match_status_witness:
  "run (failing_registry ! 0) () [] = Inl ''Failed!''
   \<and> run (failing_registry ! 2) () [] = Inr 2
   \<and> invocations (snd (runSeedersCore tick failing_registry plain_config continue_options ()))
       = [(''A'', [], ()), (''C'', [], ())]
   \<and> map SeederResult.name
         (RunReport.results (fst (runSeedersCore tick failing_registry plain_config continue_options ())))
       = [''A'', ''C'', ''B'']
   \<and> status (RunReport.results (fst (runSeedersCore tick failing_registry plain_config continue_options ())) ! 1) = Completed
   \<and> output (RunReport.results (fst (runSeedersCore tick failing_registry plain_config continue_options ())) ! 1) = Some 2
   \<and> durationMs (RunReport.results (fst (runSeedersCore tick failing_registry plain_config continue_options ())) ! 1) = Some 10
   \<and> (\<exists>k. 10 = tick (Suc k) - tick k)
   \<and> status (RunReport.results (fst (runSeedersCore tick failing_registry plain_config continue_options ())) ! 0) = Failed
   \<and> error (RunReport.results (fst (runSeedersCore tick failing_registry plain_config continue_options ())) ! 0) = Some ''Failed!''
   \<and> status (RunReport.results (fst (runSeedersCore tick failing_registry plain_config continue_options ())) ! 2) = Skipped
   \<and> durationMs (RunReport.results (fst (runSeedersCore tick failing_registry plain_config continue_options ())) ! 2) = None"
proof -
  let ?run = "runSeedersCore tick failing_registry plain_config continue_options ()"
  let ?rs = "RunReport.results (fst ?run)" and ?w = "snd ?run"
  have run: "?run = (fst ?run, ?w)" by simp
  have m0: "?rs ! 0 \<in> set ?rs" and m1: "?rs ! 1 \<in> set ?rs" and m2: "?rs ! 2 \<in> set ?rs"
    by (simp_all add: failing_run_continue)
  have names: "map SeederResult.name ?rs = [''A'', ''C'', ''B'']"
    and calls: "invocations ?w = [(''A'', [], ()), (''C'', [], ())]"
    by (simp_all add: failing_run_continue)
  have sA: "failing_registry ! 0 \<in> set failing_registry" "name (failing_registry ! 0) = ''A''"
      "run (failing_registry ! 0) () [] = Inl ''Failed!''"
    and sC: "failing_registry ! 2 \<in> set failing_registry" "name (failing_registry ! 2) = ''C''"
      "run (failing_registry ! 2) () [] = Inr 2"
    by (simp_all add: failing_registry_def)
  have ctx: "InternalSeederConfig.context plain_config () = ()" by simp
  note t0 = ledger_fields_match_status[OF run m0]
    and t1 = ledger_fields_match_status[OF run m1]
    and t2 = ledger_fields_match_status[OF run m2]
  have n0: "SeederResult.name (?rs ! 0) = ''A''" and n1: "SeederResult.name (?rs ! 1) = ''C''"
    and n2: "SeederResult.name (?rs ! 2) = ''B''"
    using names by (simp_all add: list_eq_iff_nth_eq)
  have eA: "(''A'', [], ()) \<in> set (invocations ?w)" and eC: "(''C'', [], ()) \<in> set (invocations ?w)"
    using calls by simp_all
  have c1: "status (?rs ! 1) = Completed \<and> output (?rs ! 1) = Some 2"
    using t1[THEN conjunct2, THEN conjunct2, THEN conjunct2, THEN conjunct2, THEN conjunct2,
             THEN conjunct2, THEN conjunct1, rule_format, OF eC sC(1)] sC(2,3) n1
    by (simp add: ctx)
  have c0: "status (?rs ! 0) = Failed \<and> error (?rs ! 0) = Some ''Failed!''"
    using t0[THEN conjunct2, THEN conjunct2, THEN conjunct2, THEN conjunct2, THEN conjunct2,
             THEN conjunct2, THEN conjunct1, rule_format, OF eA sA(1)] sA(2,3) n0
    by (simp add: ctx)
  have called1: "SeederResult.name (?rs ! 1) \<in> fst ` set (invocations ?w)"
    using n1 calls by simp
  then obtain d where d1: "durationMs (?rs ! 1) = Some d"
    using t1 by auto
  then have k: "\<exists>k. d = tick (Suc k) - tick k"
    using t1 by blast
  have "d = 10" using d1 by (simp add: failing_run_continue)
  have not2: "SeederResult.name (?rs ! 2) \<notin> fst ` set (invocations ?w)"
    using n2 calls by simp
  then have d2: "durationMs (?rs ! 2) = None"
    using t2 by blast
  have s2: "status (?rs ! 2) = Skipped"
    by (simp add: failing_run_continue)
  show ?thesis
    using sA(3) sC(3) calls names c1 c0 d1 k \<open>d = 10\<close> d2 s2 by simp
qed

subsection \<open>Failure of the resolution\<close>




subsection \<open>The run-active flag\<close>

lemma execute_unit_host:
  assumes "\<forall>f nm h. setSeederName config = Some f \<longrightarrow> I h \<longrightarrow> I (f nm h)"
      and "I (host (world st))"
      and "\<forall>inv \<in> set (invocations (world st)). I (snd (snd inv))"
  shows "I (host (world (snd (execute_unit clock config cof ctx i nm seeder st))))
         \<and> (\<forall>inv \<in> set (invocations (world (snd (execute_unit clock config cof ctx i nm seeder st)))).
               I (snd (snd inv)))"
  using assms
  by (auto simp: execute_unit_def call_setSeederName_def Let_def split: sum.splits option.splits)

lemma run_unit_host:
  assumes "\<forall>f nm h. setSeederName config = Some f \<longrightarrow> I h \<longrightarrow> I (f nm h)"
      and "I (host (world st))"
      and "\<forall>inv \<in> set (invocations (world st)). I (snd (snd inv))"
  shows "I (host (world (snd (run_unit clock m config cof order ctx i st))))
         \<and> (\<forall>inv \<in> set (invocations (world (snd (run_unit clock m config cof order ctx i st)))).
               I (snd (snd inv)))"
proof -
  have "world (skip_unit i (order ! i) st) = world st"
    by (simp add: skip_unit_def)
  then show ?thesis
    using assms(2,3)
      execute_unit_host[where I = I and config = config and st = st and clock = clock
        and cof = cof and ctx = ctx and i = i and nm = "order ! i", OF assms]
    by (simp add: run_unit_def Let_def split: option.splits)
qed

lemma run_loop_host:
  assumes "\<forall>f nm h. setSeederName config = Some f \<longrightarrow> I h \<longrightarrow> I (f nm h)"
      and "I (host (world st))"
      and "\<forall>inv \<in> set (invocations (world st)). I (snd (snd inv))"
  shows "I (host (world (run_loop clock m config cof order ctx i st)))
         \<and> (\<forall>inv \<in> set (invocations (world (run_loop clock m config cof order ctx i st))).
               I (snd (snd inv)))"
  using assms
proof (induction clock m config cof order ctx i st rule: run_loop.induct)
  case (1 clock m config cof order ctx i st)
  show ?case
  proof (cases "i < length order")
    case False
    then show ?thesis using "1.prems"(2,3) by (simp add: run_loop.simps[of _ _ _ _ _ _ i])
  next
    case True
    let ?r = "run_unit clock m config cof order ctx i st"
    have step: "I (host (world (snd ?r))) \<and> (\<forall>inv \<in> set (invocations (world (snd ?r))). I (snd (snd inv)))"
      by (rule run_unit_host[where I = I, OF "1.prems"])
    show ?thesis
    proof (cases "fst ?r")
      case True
      then show ?thesis
        using \<open>i < length order\<close> step
        by (simp add: run_loop.simps[of _ _ _ _ _ _ i] Let_def)
    next
      case False
      have "I (host (world (run_loop clock m config cof order ctx (Suc i) (snd ?r))))
         \<and> (\<forall>inv \<in> set (invocations (world (run_loop clock m config cof order ctx (Suc i) (snd ?r)))).
               I (snd (snd inv)))"
        by (rule "1.IH"[OF \<open>i < length order\<close> refl False])
           (use "1.prems"(1) step in blast)+
      then show ?thesis
        using \<open>i < length order\<close> False
        by (simp add: run_loop.simps[of _ _ _ _ _ _ i] Let_def)
    qed
  qed
qed

text \<open>
  C9.  Whatever the registry, the options and the state of the host before the call: every
  work function that \<open>runSeeders\<close> calls finds the flag up, and the flag is down in the
  state in which \<open>runSeeders\<close> hands back its result.  This covers runs that stop at the
  first failure and runs whose resolution fails, in which the flag goes up and down around
  no unit at all.
\<close>

theorem seeding_flag_during_run:
  fixes seeders :: "('c, 'o, 'e) Seeder list" and config :: "('b, 'c, 'a) SeederInstanceConfig"
  shows "(\<forall>inv \<in> set (invocations (snd (runSeeders clock config baseContext seeders options h))).
            isSeedingActive (snd (snd inv)))
         \<and> \<not> isSeedingActive (host (snd (runSeeders clock config baseContext seeders options h)))"
proof (cases "resolveDependencyOrder seeders")
  case (Inl err)
  then show ?thesis
    by (simp add: runSeeders_def runSeedersCore_def Let_def call_hook_def internalConfig_def
          isSeedingActive_def setSeedingActive_def user_hook_def split: option.splits)
next
  case (Inr order)
  let ?h0 = "h\<lparr>currentSeederName := []\<rparr>"
  let ?cfg = "internalConfig config (SeederInstanceConfig.context config baseContext)"
  let ?st = "loop_result clock seeders ?cfg options ?h0 order :: ('o, 'e, 'a host_state) run_state"
  have start: "isSeeding (host (started_world ?cfg ?h0 :: ('o, 'a host_state) world))"
    by (simp add: started_world_def call_hook_def internalConfig_def setSeedingActive_def
          user_hook_def split: option.splits)
  have "isSeeding (host (world ?st))
        \<and> (\<forall>inv \<in> set (invocations (world ?st)). isSeeding (snd (snd inv)))"
    unfolding loop_result_def
  proof (rule run_loop_host[where I = isSeeding])
    show "isSeeding (host (world (initial_state order (started_world ?cfg ?h0)
             :: ('o, 'e, 'a host_state) run_state)))"
      using start by (simp add: initial_state_def)
    show "\<forall>inv\<in>set (invocations (world (initial_state order (started_world ?cfg ?h0)
             :: ('o, 'e, 'a host_state) run_state))). isSeeding (snd (snd inv))"
      by (simp add: initial_state_def started_world_def call_hook_def internalConfig_def)
  next
    show "\<forall>f nm h'. setSeederName ?cfg = Some f \<longrightarrow> isSeeding h' \<longrightarrow> isSeeding (f nm h')"
      by (auto simp: internalConfig_def)
  qed
  moreover have "snd (runSeeders clock config baseContext seeders options h)
                  = call_hook (InternalSeederConfig.onAfterAll ?cfg) (world ?st)"
    by (simp add: runSeeders_def runSeedersCore_resolved[OF Inr] Let_def)
  ultimately show ?thesis
    by (simp add: call_hook_def internalConfig_def isSeedingActive_def setSeedingActive_def
          user_hook_def split: option.splits)
qed

theorem seeding_flag_during_run_witness:
  "invocations (snd (runSeeders tick plain_instance () failing_registry default_options idle_host))
     = [(''A'', [], \<lparr>isSeeding = True, currentSeederName = ''A'', app = ()\<rparr>)]
   \<and> isSeedingActive (snd (snd (hd (invocations
         (snd (runSeeders tick plain_instance () failing_registry default_options idle_host))))))
   \<and> \<not> isSeedingActive idle_host
   \<and> \<not> isSeedingActive
         (host (snd (runSeeders tick plain_instance () failing_registry default_options idle_host)))"
proof -
  let ?w = "snd (runSeeders tick plain_instance () failing_registry default_options idle_host)"
  have i: "invocations ?w = [(''A'', [], \<lparr>isSeeding = True, currentSeederName = ''A'', app = ()\<rparr>)]"
    by code_simp
  then have "hd (invocations ?w) \<in> set (invocations ?w)"
    by simp
  with seeding_flag_during_run[of tick plain_instance "()" failing_registry default_options idle_host]
  have "isSeedingActive (snd (snd (hd (invocations ?w))))" and "\<not> isSeedingActive (host ?w)"
    by blast+
  moreover have "\<not> isSeedingActive idle_host"
    by (simp add: idle_host_def isSeedingActive_def)
  ultimately show ?thesis using i by simp
qed

end
